theory Spec2Isabelle
  imports Main
begin

section \<open>JavaScript strings and character classes\<close>

text \<open>
  A JavaScript string is a sequence of UTF-16 code units. A code unit is modelled by its
  number, so that the CJK punctuation of the sentence aligner is one element each, as it is
  for the regular expressions of the source. ASCII literals are written with \<open>js\<close>.
\<close>

type_synonym jschar = nat
type_synonym jsstring = "jschar list"

definition js :: "string \<Rightarrow> jsstring" where
  "js cs = map of_char cs"

text \<open>Line terminators: LF, CR, U+2028, U+2029 (the characters \<open>.\<close> does not match).\<close>

definition is_line_terminator :: "jschar \<Rightarrow> bool" where
  "is_line_terminator c \<longleftrightarrow> c = 10 \<or> c = 13 \<or> c = 8232 \<or> c = 8233"

text \<open>
  The class \<open>\s\<close>, which is also what \<open>String.prototype.trim\<close> strips: white space
  (TAB, VT, FF, SP, NBSP, U+1680, U+2000..U+200A, U+202F, U+205F, U+3000, U+FEFF) and the
  line terminators.
\<close>

definition is_space :: "jschar \<Rightarrow> bool" where
  "is_space c \<longleftrightarrow>
     c = 9 \<or> c = 10 \<or> c = 11 \<or> c = 12 \<or> c = 13 \<or> c = 32 \<or> c = 160 \<or> c = 5760 \<or>
     (8192 \<le> c \<and> c \<le> 8202) \<or> c = 8232 \<or> c = 8233 \<or> c = 8239 \<or> c = 8287 \<or>
     c = 12288 \<or> c = 65279"

definition is_digit :: "jschar \<Rightarrow> bool" where
  "is_digit c \<longleftrightarrow> 48 \<le> c \<and> c \<le> 57"

text \<open>The class \<open>[a-zA-Z0-9]\<close>.\<close>

definition is_alnum :: "jschar \<Rightarrow> bool" where
  "is_alnum c \<longleftrightarrow> (97 \<le> c \<and> c \<le> 122) \<or> (65 \<le> c \<and> c \<le> 90) \<or> (48 \<le> c \<and> c \<le> 57)"

text \<open>The word characters of \<open>\b\<close>: \<open>[A-Za-z0-9_]\<close>.\<close>

definition is_word :: "jschar \<Rightarrow> bool" where
  "is_word c \<longleftrightarrow> is_alnum c \<or> c = 95"

text \<open>
  Canonicalisation under the \<open>i\<close> flag (no \<open>u\<close> flag): a character is compared through
  its upper case, except that a character outside ASCII is never mapped into ASCII. Every
  pattern character of the source's case-insensitive expression is ASCII, so only the action
  on ASCII matters: a lower-case letter becomes upper case, everything else is itself.
\<close>

definition canonicalize :: "jschar \<Rightarrow> jschar" where
  "canonicalize c = (if 97 \<le> c \<and> c \<le> 122 then c - 32 else c)"

definition slice :: "jsstring \<Rightarrow> nat \<Rightarrow> nat \<Rightarrow> jsstring" where
  "slice s i j = take (j - i) (drop i s)"

definition trim :: "jsstring \<Rightarrow> jsstring" where
  "trim s = rev (dropWhile is_space (rev (dropWhile is_space s)))"

fun starts_with :: "jsstring \<Rightarrow> jsstring \<Rightarrow> bool" where
  "starts_with s [] = True"
| "starts_with [] (p # ps) = False"
| "starts_with (c # s) (p # ps) = (c = p \<and> starts_with s ps)"

text \<open>\<open>s.includes(pat)\<close> of the source.\<close>

fun js_includes :: "jsstring \<Rightarrow> jsstring \<Rightarrow> bool" where
  "js_includes [] pat = (pat = [])"
| "js_includes (c # s) pat = (starts_with (c # s) pat \<or> js_includes s pat)"

section \<open>Regular expressions with the backtracking semantics of ECMAScript\<close>

text \<open>
  The abstract syntax covers what the source's patterns use. \<open>Cls P\<close> is one code unit
  satisfying \<open>P\<close> (a literal, a class, \<open>.\<close>); \<open>Star\<close> and \<open>Opt\<close> are the greedy
  \<open>*\<close> and \<open>?\<close>, \<open>LazyStar\<close> is \<open>*?\<close>; \<open>Group n\<close> is the \<open>n\<close>-th capturing group
  (a non-capturing group is just its body); \<open>Eoi\<close> is \<open>$\<close> without the \<open>m\<close> flag;
  \<open>WordB\<close> is \<open>\b\<close>; \<open>LookBehind P\<close> is \<open>(?<=[...])\<close> over one class.
\<close>

datatype regex =
    Empty
  | Cls "jschar \<Rightarrow> bool"
  | Seq regex regex
  | Alt regex regex
  | Star regex
  | LazyStar regex
  | Opt regex
  | Group nat regex
  | Eoi
  | WordB
  | LookBehind "jschar \<Rightarrow> bool"

type_synonym captures = "(nat \<times> jsstring) list"
type_synonym mstate = "nat \<times> captures"

fun groups :: "regex \<Rightarrow> nat list" where
  "groups (Seq a b) = groups a @ groups b"
| "groups (Alt a b) = groups a @ groups b"
| "groups (Star r) = groups r"
| "groups (LazyStar r) = groups r"
| "groups (Opt r) = groups r"
| "groups (Group n r) = n # groups r"
| "groups _ = []"

text \<open>Entering an iteration of a quantified atom resets the captures inside it.\<close>

definition clear_caps :: "regex \<Rightarrow> captures \<Rightarrow> captures" where
  "clear_caps r c = filter (\<lambda>kv. fst kv \<notin> set (groups r)) c"

definition set_cap :: "nat \<Rightarrow> jsstring \<Rightarrow> captures \<Rightarrow> captures" where
  "set_cap n v c = (n, v) # filter (\<lambda>kv. fst kv \<noteq> n) c"

definition word_at :: "jsstring \<Rightarrow> nat \<Rightarrow> bool" where
  "word_at s i \<longleftrightarrow> i < length s \<and> is_word (s ! i)"

text \<open>
  \<open>ends r s (i, c)\<close> lists, in the order in which the backtracking matcher tries them, the
  states in which a match of \<open>r\<close> that starts at index \<open>i\<close> with captures \<open>c\<close> can end.
  The head of the list is the match the matcher reports. An iteration of a quantifier that
  consumes nothing is rejected, as RepeatMatcher does.
\<close>

function ends :: "regex \<Rightarrow> jsstring \<Rightarrow> mstate \<Rightarrow> mstate list" where
  "ends Empty s m = [m]"
| "ends (Cls P) s m =
     (if fst m < length s \<and> P (s ! fst m) then [(Suc (fst m), snd m)] else [])"
| "ends (Seq a b) s m = concat (map (ends b s) (ends a s m))"
| "ends (Alt a b) s m = ends a s m @ ends b s m"
| "ends (Star r) s m =
     concat (map (\<lambda>m'. if fst m < fst m' \<and> fst m' \<le> length s then ends (Star r) s m' else [])
                 (ends r s (fst m, clear_caps r (snd m)))) @ [m]"
| "ends (LazyStar r) s m =
     m # concat (map (\<lambda>m'. if fst m < fst m' \<and> fst m' \<le> length s then ends (LazyStar r) s m' else [])
                     (ends r s (fst m, clear_caps r (snd m))))"
| "ends (Opt r) s m =
     filter (\<lambda>m'. fst m < fst m') (ends r s (fst m, clear_caps r (snd m))) @ [m]"
| "ends (Group n r) s m =
     map (\<lambda>m'. (fst m', set_cap n (slice s (fst m) (fst m')) (snd m'))) (ends r s m)"
| "ends Eoi s m = (if fst m = length s then [m] else [])"
| "ends WordB s m =
     (if (0 < fst m \<and> word_at s (fst m - 1)) \<noteq> word_at s (fst m) then [m] else [])"
| "ends (LookBehind P) s m =
     (if 0 < fst m \<and> fst m \<le> length s \<and> P (s ! (fst m - 1)) then [m] else [])"
  by pat_completeness auto
termination
  by (relation "measures [\<lambda>(r, s, m). size r, \<lambda>(r, s, m). length s - fst m]") auto


text \<open>
  \<open>RegExpBuiltinExec\<close> without the sticky flag: the first index from \<open>i\<close> on at which
  the pattern matches, with the match the matcher reports there; \<open>None\<close> past the end.
\<close>

function exec_from :: "regex \<Rightarrow> jsstring \<Rightarrow> nat \<Rightarrow> (nat \<times> mstate) option" where
  "exec_from r s i =
     (if length s < i then None
      else case ends r s (i, []) of
             [] \<Rightarrow> exec_from r s (Suc i)
           | m # _ \<Rightarrow> Some (i, m))"
  by pat_completeness auto
termination
  by (relation "measure (\<lambda>(r, s, i). Suc (length s) - i)") auto

text \<open>
  The loop of a global expression (\<open>match\<close>, \<open>matchAll\<close> and \<open>replace\<close> with the
  \<open>g\<close> flag): every match from \<open>lastIndex = i\<close> on; after an empty match
  \<open>lastIndex\<close> advances by one. A match is \<open>(start, end, captures)\<close>. The test
  \<open>i < i'\<close> always holds (a match never ends before it starts); it is what the
  termination argument reads.
\<close>

function match_all :: "regex \<Rightarrow> jsstring \<Rightarrow> nat \<Rightarrow> (nat \<times> mstate) list" where
  "match_all r s i =
     (case exec_from r s i of
        None \<Rightarrow> []
      | Some (st, m) \<Rightarrow>
          (st, m) # (let i' = (if fst m = st then Suc (fst m) else fst m)
                     in if i < i' \<and> i \<le> length s then match_all r s i' else []))"
  by pat_completeness auto
termination
  by (relation "measure (\<lambda>(r, s, i). Suc (length s) - i)") auto

definition matched :: "jsstring \<Rightarrow> nat \<times> mstate \<Rightarrow> jsstring" where
  "matched s x = slice s (fst x) (fst (snd x))"

definition capture :: "nat \<Rightarrow> nat \<times> mstate \<Rightarrow> jsstring option" where
  "capture n x = map_of (snd (snd x)) n"

text \<open>\<open>text.match(re)\<close> for a global \<open>re\<close>, with \<open>|| []\<close> applied: the matched substrings.\<close>

definition js_match_g :: "regex \<Rightarrow> jsstring \<Rightarrow> jsstring list" where
  "js_match_g r s = map (matched s) (match_all r s 0)"

text \<open>
  \<open>GetSubstitution\<close> for a pattern without capturing groups: \<open>$$\<close>, \<open>$&\<close>,
  \<open>$`\<close> and \<open>$'\<close> are replaced, every other character is copied.
\<close>

fun get_substitution :: "jsstring \<Rightarrow> jsstring \<Rightarrow> nat \<Rightarrow> jsstring \<Rightarrow> jsstring" where
  "get_substitution mt s pos (c # d # t) =
     (if c = 36 \<and> d = 36 then 36 # get_substitution mt s pos t
      else if c = 36 \<and> d = 38 then mt @ get_substitution mt s pos t
      else if c = 36 \<and> d = 96 then take pos s @ get_substitution mt s pos t
      else if c = 36 \<and> d = 39 then drop (pos + length mt) s @ get_substitution mt s pos t
      else c # get_substitution mt s pos (d # t))"
| "get_substitution mt s pos t = t"

text \<open>\<open>s.replace(re, template)\<close> for a non-global \<open>re\<close>: the first match only.\<close>

definition js_replace :: "regex \<Rightarrow> jsstring \<Rightarrow> jsstring \<Rightarrow> jsstring" where
  "js_replace r s template =
     (case exec_from r s 0 of
        None \<Rightarrow> s
      | Some x \<Rightarrow> take (fst x) s @ get_substitution (matched s x) s (fst x) template
                   @ drop (fst (snd x)) s)"

text \<open>\<open>s.replace(re, '')\<close> for a global \<open>re\<close>: the text between the matches.\<close>

fun remove_matches :: "jsstring \<Rightarrow> (nat \<times> mstate) list \<Rightarrow> nat \<Rightarrow> jsstring" where
  "remove_matches s [] nxt = drop nxt s"
| "remove_matches s (x # xs) nxt =
     (if nxt \<le> fst x then slice s nxt (fst x) @ remove_matches s xs (fst (snd x))
      else remove_matches s xs nxt)"

definition js_remove_g :: "regex \<Rightarrow> jsstring \<Rightarrow> jsstring" where
  "js_remove_g r s = remove_matches s (match_all r s 0) 0"

text \<open>\<open>s.split(c)\<close> for a one-character separator.\<close>

fun split_on :: "jschar \<Rightarrow> jsstring \<Rightarrow> jsstring list" where
  "split_on c [] = [[]]"
| "split_on c (x # xs) =
     (if x = c then [] # split_on c xs
      else case split_on c xs of [] \<Rightarrow> [[x]] | h # t \<Rightarrow> (x # h) # t)"

text \<open>
  \<open>s.split(re)\<close>: at each \<open>q\<close> the pattern is tried at \<open>q\<close> only (sticky); a match
  that ends at the start \<open>p\<close> of the current piece is skipped. The patterns the source
  splits on have no capturing group, so no capture is spliced into the result. The test
  \<open>q \<le> e\<close> always holds.
\<close>

function split_loop :: "regex \<Rightarrow> jsstring \<Rightarrow> nat \<Rightarrow> nat \<Rightarrow> jsstring list" where
  "split_loop r s p q =
     (if q < length s then
        (case ends r s (q, []) of
           [] \<Rightarrow> split_loop r s p (Suc q)
         | m # _ \<Rightarrow>
             (let e = min (fst m) (length s)
              in if e = p then split_loop r s p (Suc q)
                 else if q \<le> e then slice s p q # split_loop r s e e
                 else []))
      else [slice s p (length s)])"
  by pat_completeness auto
termination
  by (relation "measures [\<lambda>(r, s, p, q). length s - q, \<lambda>(r, s, p, q). if p = q then 0 else 1]")
     (auto split: if_splits)

definition js_split :: "regex \<Rightarrow> jsstring \<Rightarrow> jsstring list" where
  "js_split r s =
     (if s = [] then (case ends r s (0, []) of [] \<Rightarrow> [s] | _ \<Rightarrow> [])
      else split_loop r s 0 0)"

text \<open>\<open>Array.from(new Set(xs))\<close>: the first occurrence of each element, in order.\<close>

fun from_set :: "jsstring list \<Rightarrow> jsstring list" where
  "from_set [] = []"
| "from_set (x # xs) = x # from_set (filter (\<lambda>y. y \<noteq> x) xs)"


text \<open>
  A pattern without assertions and capturing groups, and what it means for a whole string
  to match a pattern: some run of the matcher from index 0 ends at the end of the string.
\<close>

fun plain :: "regex \<Rightarrow> bool" where
  "plain Empty = True"
| "plain (Cls P) = True"
| "plain (Seq a b) = (plain a \<and> plain b)"
| "plain (Alt a b) = (plain a \<and> plain b)"
| "plain (Star r) = plain r"
| "plain (LazyStar r) = plain r"
| "plain (Opt r) = plain r"
| "plain _ = False"

fun no_lookbehind :: "regex \<Rightarrow> bool" where
  "no_lookbehind (Seq a b) = (no_lookbehind a \<and> no_lookbehind b)"
| "no_lookbehind (Alt a b) = (no_lookbehind a \<and> no_lookbehind b)"
| "no_lookbehind (Star r) = no_lookbehind r"
| "no_lookbehind (LazyStar r) = no_lookbehind r"
| "no_lookbehind (Opt r) = no_lookbehind r"
| "no_lookbehind (Group n r) = no_lookbehind r"
| "no_lookbehind WordB = False"
| "no_lookbehind (LookBehind P) = False"
| "no_lookbehind _ = True"

definition full_match :: "regex \<Rightarrow> jsstring \<Rightarrow> bool" where
  "full_match r w \<longleftrightarrow> length w \<in> fst ` set (ends r w (0, []))"

section \<open>The patterns of the source\<close>

definition chr :: "char \<Rightarrow> regex" where
  "chr c = Cls (\<lambda>x. x = of_char c)"

definition lit :: "jsstring \<Rightarrow> regex" where
  "lit cs = foldr (\<lambda>c r. Seq (Cls (\<lambda>x. x = c)) r) cs Empty"

text \<open>A literal under the \<open>i\<close> flag.\<close>

definition lit_i :: "jsstring \<Rightarrow> regex" where
  "lit_i cs = foldr (\<lambda>c r. Seq (Cls (\<lambda>x. canonicalize x = canonicalize c)) r) cs Empty"

definition one_or_more :: "regex \<Rightarrow> regex" where
  "one_or_more r = Seq r (Star r)"

definition one_or_more_lazy :: "regex \<Rightarrow> regex" where
  "one_or_more_lazy r = Seq r (LazyStar r)"

text \<open>
  The class \<open>[^\s<>"']\<close>. It is negated and none of its members is a letter, so the
  \<open>i\<close> flag does not change it.
\<close>

definition url_char :: "jschar \<Rightarrow> bool" where
  "url_char c \<longleftrightarrow> \<not> (is_space c \<or> c = 60 \<or> c = 62 \<or> c = 34 \<or> c = 39)"

text \<open>
  \<^verbatim>\<open>/https?:\/\/(?:[^\s<>"']+?\.(?:jpg|jpeg|gif|png|webp|bmp|svg)|s\.mj\.run\/[^\s<>"']+)(?:\?[^\s<>"']*)?/gi\<close>
\<close>

definition imageExtensions :: regex where
  "imageExtensions =
     Alt (lit_i (js ''jpg'')) (Alt (lit_i (js ''jpeg'')) (Alt (lit_i (js ''gif''))
    (Alt (lit_i (js ''png'')) (Alt (lit_i (js ''webp'')) (Alt (lit_i (js ''bmp''))
         (lit_i (js ''svg'')))))))"

definition imageUrlRegex :: regex where
  "imageUrlRegex =
     Seq (lit_i (js ''http'')) (Seq (Opt (lit_i (js ''s''))) (Seq (lit_i (js ''://''))
    (Seq (Alt (Seq (one_or_more_lazy (Cls url_char)) (Seq (lit_i (js ''.'')) imageExtensions))
              (Seq (lit_i (js ''s.mj.run/'')) (one_or_more (Cls url_char))))
         (Opt (Seq (lit_i (js ''?'')) (Star (Cls url_char)))))))"

text \<open>The class \<open>[:\s]\<close>.\<close>

definition colon_or_space :: "jschar \<Rightarrow> bool" where
  "colon_or_space c \<longleftrightarrow> c = 58 \<or> is_space c"

definition non_space :: "jschar \<Rightarrow> bool" where
  "non_space c \<longleftrightarrow> \<not> is_space c"

text \<open>\<^verbatim>\<open>/--([a-zA-Z0-9]+)(?:[:\s]+([^\s]+))?/g\<close>\<close>

definition paramRegex :: regex where
  "paramRegex =
     Seq (lit (js ''--'')) (Seq (Group 1 (one_or_more (Cls is_alnum)))
         (Opt (Seq (one_or_more (Cls colon_or_space)) (Group 2 (one_or_more (Cls non_space))))))"

text \<open>\<^verbatim>\<open>/--.*$/\<close>: no \<open>s\<close> flag, so \<open>.\<close> stops at a line terminator, and no \<open>m\<close> flag, so
  \<open>$\<close> is the end of the text.\<close>

definition flagTailRegex :: regex where
  "flagTailRegex =
     Seq (lit (js ''--'')) (Seq (Star (Cls (\<lambda>c. \<not> is_line_terminator c))) Eoi)"

text \<open>\<^verbatim>\<open>/@[^()]*(?:\([^)]*\))?/g\<close>\<close>

definition mentionRegex :: regex where
  "mentionRegex =
     Seq (chr CHR ''@'') (Seq (Star (Cls (\<lambda>c. c \<noteq> 40 \<and> c \<noteq> 41)))
         (Opt (Seq (chr CHR ''('') (Seq (Star (Cls (\<lambda>c. c \<noteq> 41))) (chr CHR '')'')))))"

text \<open>\<^verbatim>\<open>/\d+:\d+/g\<close>\<close>

definition ratioRegex :: regex where
  "ratioRegex = Seq (one_or_more (Cls is_digit)) (Seq (chr CHR '':'') (one_or_more (Cls is_digit)))"

text \<open>\<^verbatim>\<open>/\b\d+(\.\d+)?\b/g\<close>\<close>

definition numberRegex :: regex where
  "numberRegex =
     Seq WordB (Seq (one_or_more (Cls is_digit))
         (Seq (Opt (Group 1 (Seq (chr CHR ''.'') (one_or_more (Cls is_digit))))) WordB))"

text \<open>\<^verbatim>\<open>/\([^)]*\)/g\<close>\<close>

definition parenRegex :: regex where
  "parenRegex = Seq (chr CHR ''('') (Seq (Star (Cls (\<lambda>c. c \<noteq> 41))) (chr CHR '')''))"

text \<open>\<^verbatim>\<open>/\s*,\s*$/\<close>\<close>

definition trailingCommaRegex :: regex where
  "trailingCommaRegex =
     Seq (Star (Cls is_space)) (Seq (chr CHR '','') (Seq (Star (Cls is_space)) Eoi))"

text \<open>\<^verbatim>\<open>/(?<=[.!?])\s+/\<close>\<close>

definition originalSplitRegex :: regex where
  "originalSplitRegex =
     Seq (LookBehind (\<lambda>c. c = 46 \<or> c = 33 \<or> c = 63)) (one_or_more (Cls is_space))"

text \<open>\<^verbatim>\<open>/(?<=[...])\s*/\<close> over the ideographic full stop U+3002 and the full-width
  exclamation and question marks U+FF01, U+FF1F.\<close>

definition translatedSplitRegex :: regex where
  "translatedSplitRegex =
     Seq (LookBehind (\<lambda>c. c = 12290 \<or> c = 65281 \<or> c = 65311)) (Star (Cls is_space))"

text \<open>
  The syntax characters of a pattern: \<open>^ $ \ . * + ? ( ) [ ] { } |\<close>. Every other code
  unit in a pattern source stands for itself.
\<close>

definition syntax_character :: "jschar \<Rightarrow> bool" where
  "syntax_character c \<longleftrightarrow>
     c = 94 \<or> c = 36 \<or> c = 92 \<or> c = 46 \<or> c = 42 \<or> c = 43 \<or> c = 63 \<or> c = 40 \<or> c = 41 \<or>
     c = 91 \<or> c = 93 \<or> c = 123 \<or> c = 125 \<or> c = 124"

definition literal_name :: "jsstring \<Rightarrow> bool" where
  "literal_name paramName \<longleftrightarrow> list_all (\<lambda>c. \<not> syntax_character c) paramName"

text \<open>
  The pattern \<^verbatim>\<open>--NAME(?:[:\s]+[^\s]+)?\s*\<close> in which the name stands for itself.
\<close>

definition literalParamRegex :: "jsstring \<Rightarrow> regex" where
  "literalParamRegex paramName =
     Seq (lit (js ''--'')) (Seq (lit paramName)
         (Seq (Opt (Seq (one_or_more (Cls colon_or_space)) (one_or_more (Cls non_space))))
              (Star (Cls is_space))))"

text \<open>
  \<^verbatim>\<open>new RegExp(`--${paramName}(?:[:\\s]+[^\\s]+)?\\s*`)\<close>. The name is spliced into the
  pattern source and read as pattern text. A name without syntax characters, as every
  catalog key and every name \<open>analyzePrompt\<close> extracts (\<open>[a-zA-Z0-9]+\<close>), stands for
  itself. A name with a syntax character makes the constructor throw a \<open>SyntaxError\<close>
  (the name \<open>a(\<close>) or build a pattern that matches something other than the name (the
  name \<open>a.b\<close>); pattern text is not parsed here, and the result is \<open>None\<close> for such a
  name.
\<close>

definition updateParamRegex :: "jsstring \<Rightarrow> regex option" where
  "updateParamRegex paramName =
     (if literal_name paramName then Some (literalParamRegex paramName) else None)"

text \<open>A flag starts at index \<open>i\<close>: two hyphens and a character of \<open>[a-zA-Z0-9]\<close>.\<close>

definition flag_at :: "jsstring \<Rightarrow> nat \<Rightarrow> bool" where
  "flag_at s i \<longleftrightarrow>
     starts_with (drop i s) (js ''--'') \<and> i + 2 < length s \<and> is_alnum (s ! (i + 2))"

section \<open>The parameter catalog\<close>

datatype param_type = Number | Text | Select

text \<open>
  \<open>ParameterInfo\<close>, without the display strings (\<open>name\<close>, \<open>description\<close>,
  \<open>examples\<close>) that no computation reads. An optional field is an \<open>option\<close>. The bounds
  of the catalog are whole numbers.
\<close>

record ParameterInfo =
  info_values :: "jsstring list option"
  info_default :: "jsstring option"
  info_type :: "param_type option"
  info_min :: "int option"
  info_max :: "int option"

definition PARAMETER_INFO :: "(jsstring \<times> ParameterInfo) list" where
  "PARAMETER_INFO =
    [(js ''ar'', \<lparr>info_values = Some [js ''1:1'', js ''16:9'', js ''9:16'', js ''4:3'', js ''3:4'',
                                      js ''2:1'', js ''1:2''],
                 info_default = None, info_type = Some Text, info_min = None, info_max = None\<rparr>),
     (js ''chaos'', \<lparr>info_values = None, info_default = None, info_type = Some Number,
                    info_min = Some 0, info_max = Some 100\<rparr>),
     (js ''quality'', \<lparr>info_values = Some [js ''.25'', js ''.5'', js ''1''],
                      info_default = Some (js ''1''), info_type = Some Select,
                      info_min = None, info_max = None\<rparr>),
     (js ''seed'', \<lparr>info_values = None, info_default = None, info_type = Some Number,
                   info_min = None, info_max = None\<rparr>),
     (js ''stop'', \<lparr>info_values = None, info_default = None, info_type = Some Number,
                   info_min = Some 10, info_max = Some 100\<rparr>),
     (js ''style'', \<lparr>info_values = Some [js ''raw''], info_default = None,
                    info_type = Some Text, info_min = None, info_max = None\<rparr>),
     (js ''stylize'', \<lparr>info_values = None, info_default = Some (js ''100''),
                      info_type = Some Number, info_min = Some 0, info_max = Some 1000\<rparr>),
     (js ''tile'', \<lparr>info_values = None, info_default = None, info_type = Some Text,
                   info_min = None, info_max = None\<rparr>),
     (js ''version'', \<lparr>info_values = Some [js ''5.0'', js ''5.1'', js ''5.2'', js ''6.0''],
                      info_default = None, info_type = Some Text,
                      info_min = None, info_max = None\<rparr>),
     (js ''weird'', \<lparr>info_values = None, info_default = None, info_type = Some Number,
                    info_min = Some 0, info_max = Some 3000\<rparr>),
     (js ''iw'', \<lparr>info_values = None, info_default = Some (js ''1''), info_type = Some Number,
                 info_min = Some 0, info_max = Some 2\<rparr>),
     (js ''v'', \<lparr>info_values = Some [js ''5.0'', js ''5.1'', js ''5.2'', js ''6.0''],
                info_default = Some (js ''6.0''), info_type = Some Select,
                info_min = None, info_max = None\<rparr>),
     (js ''s'', \<lparr>info_values = None, info_default = Some (js ''100''), info_type = Some Number,
                info_min = Some 0, info_max = Some 1000\<rparr>)]"

text \<open>
  \<open>PARAMETER_INFO[name]\<close>. The catalog is an object literal, so a name that is not one
  of its keys is looked up in \<open>Object.prototype\<close>, and only a name that is not there
  either reads \<open>undefined\<close> (\<open>None\<close>). The code reads nothing of what it finds but
  \<open>default\<close>, \<open>type\<close>, \<open>min\<close> and \<open>values\<close>, and of \<open>values\<close> only whether it
  is truthy and its element 0. \<open>constructor\<close> finds the function \<open>Object\<close>, whose
  \<open>values\<close> is the function \<open>Object.values\<close>: truthy and without an element 0, which
  is what the empty list stands for. The other inherited names find a function (or, for
  \<open>__proto__\<close>, the prototype) with none of the four fields.
\<close>

definition object_prototype_names :: "jsstring list" where
  "object_prototype_names =
     [js ''constructor'', js ''hasOwnProperty'', js ''isPrototypeOf'',
      js ''propertyIsEnumerable'', js ''toLocaleString'', js ''toString'', js ''valueOf'',
      js ''__proto__'', js ''__defineGetter__'', js ''__defineSetter__'',
      js ''__lookupGetter__'', js ''__lookupSetter__'']"

definition lookup_info :: "jsstring \<Rightarrow> ParameterInfo option" where
  "lookup_info name =
     (case map_of PARAMETER_INFO name of
        Some info \<Rightarrow> Some info
      | None \<Rightarrow>
          if name = js ''constructor'' then
            Some \<lparr>info_values = Some [], info_default = None, info_type = None,
                  info_min = None, info_max = None\<rparr>
          else if name \<in> set object_prototype_names then
            Some \<lparr>info_values = None, info_default = None, info_type = None,
                  info_min = None, info_max = None\<rparr>
          else None)"

text \<open>\<open>String(n)\<close> for a whole number.\<close>

fun digits :: "nat \<Rightarrow> jsstring" where
  "digits n = (if n < 10 then [48 + n] else digits (n div 10) @ [48 + n mod 10])"

definition number_to_string :: "int \<Rightarrow> jsstring" where
  "number_to_string k = (if k < 0 then 45 # digits (nat (- k)) else digits (nat k))"

text \<open>
  The default of \<open>updateParameter\<close> and \<open>handleAddParameter\<close>, on what the lookup
  found (\<open>None\<close> when \<open>PARAMETER_INFO[paramName]\<close> is undefined, which \<open>?.\<close> lets
  through):
  \<^verbatim>\<open>info.default || (info.type === 'number'
        ? (info.min !== undefined ? String(info.min) : '1')
        : (info.values ? info.values[0] : '1'))\<close>
  The result is \<open>None\<close> for \<open>undefined\<close> (the first entry of an empty array). An empty
  string is falsy, an array is truthy even when empty.
\<close>

definition default_value :: "ParameterInfo option \<Rightarrow> jsstring option" where
  "default_value info =
     (let rest =
        (if Option.bind info info_type = Some Number then
           (case Option.bind info info_min of
              Some m \<Rightarrow> Some (number_to_string m)
            | None \<Rightarrow> Some (js ''1''))
         else
           (case Option.bind info info_values of
              Some vs \<Rightarrow> (case vs of [] \<Rightarrow> None | v # _ \<Rightarrow> Some v)
            | None \<Rightarrow> Some (js ''1'')))
      in case Option.bind info info_default of
           Some d \<Rightarrow> if d \<noteq> [] then Some d else rest
         | None \<Rightarrow> rest)"

text \<open>
  The default-value policy in the words of the specification (its section 4.1), to be
  compared with \<open>default_value\<close>: the \<open>defaultValue\<close> if defined; else, for a number,
  the string form of \<open>minimum\<close> if defined and \<open>1\<close> otherwise; else the first of the
  \<open>allowedValues\<close> if there is one; else \<open>1\<close>. A key that is not in the catalog has no
  metadata.
\<close>

definition policy_default :: "ParameterInfo option \<Rightarrow> jsstring" where
  "policy_default info =
     (case Option.bind info info_default of
        Some d \<Rightarrow> d
      | None \<Rightarrow>
          if Option.bind info info_type = Some Number then
            (case Option.bind info info_min of
               Some m \<Rightarrow> number_to_string m
             | None \<Rightarrow> js ''1'')
          else
            (case Option.bind info info_values of
               Some (v # _) \<Rightarrow> v
             | _ \<Rightarrow> js ''1''))"

text \<open>A value inside a template literal: \<open>undefined\<close> prints as its name.\<close>

definition template :: "jsstring option \<Rightarrow> jsstring" where
  "template v = (case v of None \<Rightarrow> js ''undefined'' | Some x \<Rightarrow> x)"


section \<open>The prompt decomposer\<close>

record ExtractedParameter =
  param_name :: jsstring
  param_value :: jsstring
  param_enabled :: bool

record PromptAnalysis =
  imageUrls :: "jsstring list"
  descriptions :: "jsstring list"
  parameters :: "ExtractedParameter list"

record TextMapping =
  original :: jsstring
  translated :: jsstring
  index :: nat

text \<open>
  One entry of \<open>parameters\<close>: \<open>name: match[1], value: match[2] || '', enabled: true\<close>.
  Group 1 is not optional in \<open>paramRegex\<close>, so \<open>match[1]\<close> is a string in every match.
\<close>

definition to_parameter :: "nat \<times> mstate \<Rightarrow> ExtractedParameter" where
  "to_parameter x =
     \<lparr>param_name = (case capture 1 x of Some v \<Rightarrow> v | None \<Rightarrow> []),
      param_value = (case capture 2 x of Some v \<Rightarrow> v | None \<Rightarrow> []),
      param_enabled = True\<rparr>"

text \<open>The value of \<open>descriptionText\<close> when \<open>analyzePrompt\<close> splits it into lines.\<close>

definition descriptionText :: "jsstring \<Rightarrow> jsstring" where
  "descriptionText text =
     (let d1 = js_remove_g imageUrlRegex text;
          d2 = js_replace flagTailRegex d1 [];
          d3 = js_remove_g mentionRegex d2;
          d4 = js_remove_g ratioRegex d3;
          d5 = js_remove_g numberRegex d4;
          d6 = js_remove_g parenRegex d5
      in trim (js_replace trailingCommaRegex d6 []))"

text \<open>The object \<open>analyzePrompt\<close> passes to \<open>setAnalysis\<close>.\<close>

definition analyze :: "jsstring \<Rightarrow> PromptAnalysis" where
  "analyze text =
     \<lparr>imageUrls = from_set (js_match_g imageUrlRegex text),
      descriptions = filter (\<lambda>part. 0 < length part)
                       (map trim (split_on 10 (descriptionText text))),
      parameters = map to_parameter (match_all paramRegex text 0)\<rparr>"

section \<open>The sentence aligner\<close>

definition originalParts :: "jsstring \<Rightarrow> jsstring list" where
  "originalParts text =
     map trim (filter (\<lambda>part. trim part \<noteq> []) (js_split originalSplitRegex text))"

definition translatedParts :: "jsstring \<Rightarrow> jsstring list" where
  "translatedParts result =
     map trim (filter (\<lambda>part. trim part \<noteq> []) (js_split translatedSplitRegex result))"

text \<open>
  The splitting rule in the words of the specification (its section 4.4), to be compared
  with \<open>originalParts\<close> and \<open>translatedParts\<close>. The text is read from left to right;
  \<open>cur\<close> is the piece read so far. A cut falls where the piece ends in a sentence mark and
  white space follows; the whole run of white space is dropped and the next piece starts
  after it. When white space is optional (\<open>need_space\<close> false) a cut also falls right after
  a mark that no white space follows. The marks are the period, the exclamation mark and the
  question mark for the original text, and the ideographic full stop and the full-width
  exclamation and question marks for the translated text.
\<close>

definition sentence_mark :: "jschar \<Rightarrow> bool" where
  "sentence_mark c \<longleftrightarrow> c = 46 \<or> c = 33 \<or> c = 63"

definition cjk_sentence_mark :: "jschar \<Rightarrow> bool" where
  "cjk_sentence_mark c \<longleftrightarrow> c = 12290 \<or> c = 65281 \<or> c = 65311"

function cut_after :: "(jschar \<Rightarrow> bool) \<Rightarrow> bool \<Rightarrow> jsstring \<Rightarrow> jsstring \<Rightarrow> jsstring list" where
  "cut_after mark need_space cur [] = [cur]"
| "cut_after mark need_space cur (c # cs) =
     (if cur \<noteq> [] \<and> mark (last cur) \<and> (is_space c \<or> \<not> need_space)
      then cur # cut_after mark need_space [] (dropWhile is_space (c # cs))
      else cut_after mark need_space (cur @ [c]) cs)"
  by pat_completeness auto
termination
  by (relation "measures [\<lambda>(mark, need_space, cur, rest). length rest,
                          \<lambda>(mark, need_space, cur, rest). length cur]")
     (auto simp: length_dropWhile_le le_imp_less_Suc)

text \<open>Trim each piece, drop the empty ones.\<close>

definition sentence_pieces :: "(jschar \<Rightarrow> bool) \<Rightarrow> bool \<Rightarrow> jsstring \<Rightarrow> jsstring list" where
  "sentence_pieces mark need_space text =
     filter (\<lambda>piece. piece \<noteq> []) (map trim (cut_after mark need_space [] text))"

text \<open>\<open>translatedParts[index] || ''\<close>: an index past the end reads \<open>undefined\<close>.\<close>

definition part_or_empty :: "jsstring list \<Rightarrow> nat \<Rightarrow> jsstring" where
  "part_or_empty ps i = (if i < length ps then ps ! i else [])"

text \<open>The \<open>mappings\<close> that \<open>handleTranslate\<close> builds from the text and its translation.\<close>

definition align :: "jsstring \<Rightarrow> jsstring \<Rightarrow> TextMapping list" where
  "align text result =
     map (\<lambda>(i, part). \<lparr>original = part,
                         translated = part_or_empty (translatedParts result) i,
                         index = i\<rparr>)
         (enumerate 0 (originalParts text))"

section \<open>Component state and handlers\<close>

text \<open>What a \<open>catch\<close> can receive: an \<open>Error\<close> with its message, or any other value.\<close>

datatype thrown = Error jsstring | NotAnError

datatype js_error = TypeError

record app_state =
  prompt :: jsstring
  analysis :: "PromptAnalysis option"
  editingParam :: "jsstring option"
  paramValue :: jsstring
  translationError :: "jsstring option"
  translatedText :: jsstring
  isTranslating :: bool
  textMappings :: "TextMapping list"

text \<open>The three message literals of \<open>handleTranslate\<close>, as code units.\<close>

definition msg_unknown :: jsstring where
  "msg_unknown = [26410, 30693, 38169, 35823]"

definition msg_insufficient_balance :: jsstring where
  "msg_insufficient_balance =
     [32763, 35793, 26381, 21153, 20313, 39069, 19981, 36275, 65292, 35831, 32852, 31995,
      31649, 29702, 21592, 20805, 20540]"

definition msg_failed :: jsstring where
  "msg_failed = [32763, 35793, 22833, 36133]"

definition errorMessage :: "thrown \<Rightarrow> jsstring" where
  "errorMessage e =
     (case e of
        Error message \<Rightarrow>
          if js_includes message (js ''54004'') then msg_insufficient_balance else message
      | NotAnError \<Rightarrow> msg_unknown)"

text \<open>
  \<open>handleTranslate\<close>, with the awaited call \<open>selectedService.translate(text)\<close> as the
  parameter \<open>translate\<close>: it resolves to a string (\<open>Inr\<close>) or rejects (\<open>Inl\<close>).
\<close>

definition handleTranslate ::
  "(jsstring \<Rightarrow> thrown + jsstring) \<Rightarrow> app_state \<Rightarrow> jsstring \<Rightarrow> app_state" where
  "handleTranslate translate st text =
     (if text = [] then st
      else
        let st1 = st\<lparr>isTranslating := True, translationError := None\<rparr>
        in case translate text of
             Inr result \<Rightarrow>
               st1\<lparr>translatedText := result, textMappings := align text result,
                    isTranslating := False\<rparr>
           | Inl e \<Rightarrow>
               st1\<lparr>translatedText := msg_failed, translationError := Some (errorMessage e),
                    isTranslating := False\<rparr>)"

definition analyzePrompt ::
  "(jsstring \<Rightarrow> thrown + jsstring) \<Rightarrow> app_state \<Rightarrow> jsstring \<Rightarrow> app_state" where
  "analyzePrompt translate st text =
     handleTranslate translate (st\<lparr>analysis := Some (analyze text)\<rparr>) (descriptionText text)"

text \<open>
  The string \<open>newPrompt.trim()\<close> of \<open>updateParameter\<close>, from the prompt in the state.
  The result is \<open>None\<close> where \<open>new RegExp\<close> is not followed: for a name with a syntax
  character, on which the handler throws or replaces the match of another pattern.
\<close>

definition update :: "jsstring \<Rightarrow> jsstring \<Rightarrow> jsstring \<Rightarrow> jsstring option" where
  "update prompt0 paramName newValue =
     (let defaultValue = default_value (lookup_info paramName);
          valueToUse = (if trim newValue \<noteq> [] then Some (trim newValue) else defaultValue)
      in case updateParamRegex paramName of
           None \<Rightarrow> None
         | Some re \<Rightarrow>
             let newPrompt = js_replace re prompt0
                               (js ''--'' @ paramName @ js '' '' @ template valueToUse @ js '' '')
             in Some (trim newPrompt))"

definition updateParameter ::
  "(jsstring \<Rightarrow> thrown + jsstring) \<Rightarrow> app_state \<Rightarrow> jsstring \<Rightarrow> jsstring \<Rightarrow> app_state option"
  where
  "updateParameter translate st paramName newValue =
     (case analysis st of
        None \<Rightarrow> Some st
      | Some _ \<Rightarrow>
          (case update (prompt st) paramName newValue of
             None \<Rightarrow> None
           | Some newPrompt \<Rightarrow>
               Some ((analyzePrompt translate (st\<lparr>prompt := newPrompt\<rparr>) newPrompt)
                       \<lparr>editingParam := None, paramValue := []\<rparr>)))"

text \<open>
  The string \<open>newPrompt\<close> of \<open>handleAddParameter\<close>. Reading \<open>info.default\<close> throws a
  \<open>TypeError\<close> when the lookup of the key is undefined.
\<close>

definition add :: "jsstring \<Rightarrow> jsstring \<Rightarrow> js_error + jsstring" where
  "add prompt0 key =
     (case lookup_info key of
        None \<Rightarrow> Inl TypeError
      | Some info \<Rightarrow>
          Inr (trim (prompt0 @ js '' --'' @ key @ js '' '' @ template (default_value (Some info)))))"

definition handleAddParameter ::
  "(jsstring \<Rightarrow> thrown + jsstring) \<Rightarrow> app_state \<Rightarrow> jsstring \<Rightarrow> js_error + app_state" where
  "handleAddParameter translate st key =
     (case add (prompt st) key of
        Inl e \<Rightarrow> Inl e
      | Inr newPrompt \<Rightarrow> Inr (analyzePrompt translate (st\<lparr>prompt := newPrompt\<rparr>) newPrompt))"


section \<open>Properties of the matcher\<close>

text \<open>
  The recursive equations of the loops are applied by hand in proofs about arbitrary texts
  and added to the simplifier where a concrete text is evaluated.
\<close>

declare ends.simps(5,6) [simp del]
declare exec_from.simps [simp del]
declare match_all.simps [simp del]
declare split_loop.simps [simp del]

text \<open>The unfoldings that evaluate a pattern on a concrete text.\<close>

lemmas cls_defs = is_alnum_def colon_or_space_def non_space_def is_space_def is_digit_def
  is_word_def is_line_terminator_def url_char_def canonicalize_def word_at_def

lemmas re_defs = lit_def lit_i_def one_or_more_def one_or_more_lazy_def chr_def clear_caps_def
  set_cap_def slice_def

lemmas loop_simps = ends.simps(5,6) exec_from.simps match_all.simps split_loop.simps

lemmas js_eval = js_def re_defs is_space_def loop_simps trim_def

text \<open>A match never ends before it starts, nor past the end of the text.\<close>

lemma ends_mono: "m' \<in> set (ends r s m) \<Longrightarrow> fst m \<le> fst m'"
proof (induction r s m arbitrary: m' rule: ends.induct)
  case (3 a b s m)
  from "3.prems" obtain x where x: "x \<in> set (ends a s m)" "m' \<in> set (ends b s x)"
    by auto
  from "3.IH"(1)[OF x(1)] "3.IH"(2)[OF x] show ?case by simp
next
  case (5 r s m)
  from "5.prems" consider "m' = m"
    | x where "x \<in> set (ends r s (fst m, clear_caps r (snd m)))" "fst m < fst x"
        "fst x \<le> length s" "m' \<in> set (ends (Star r) s x)"
    by (subst (asm) ends.simps(5)) (auto split: if_splits)
  then show ?case
  proof cases
    case 1
    then show ?thesis by simp
  next
    case 2
    from "5.IH"(2)[OF 2(1) _ 2(4)] 2(2,3) show ?thesis by simp
  qed
next
  case (6 r s m)
  from "6.prems" consider "m' = m"
    | x where "x \<in> set (ends r s (fst m, clear_caps r (snd m)))" "fst m < fst x"
        "fst x \<le> length s" "m' \<in> set (ends (LazyStar r) s x)"
    by (subst (asm) ends.simps(6)) (auto split: if_splits)
  then show ?case
  proof cases
    case 1
    then show ?thesis by simp
  next
    case 2
    from "6.IH"(2)[OF 2(1) _ 2(4)] 2(2,3) show ?thesis by simp
  qed
qed (auto split: if_splits)

lemma ends_bound: "m' \<in> set (ends r s m) \<Longrightarrow> fst m \<le> length s \<Longrightarrow> fst m' \<le> length s"
proof (induction r s m arbitrary: m' rule: ends.induct)
  case (3 a b s m)
  from "3.prems" obtain x where x: "x \<in> set (ends a s m)" "m' \<in> set (ends b s x)"
    by auto
  from "3.IH"(1)[OF x(1) "3.prems"(2)] "3.IH"(2)[OF x] show ?case by simp
next
  case (5 r s m)
  from "5.prems" consider "m' = m"
    | x where "x \<in> set (ends r s (fst m, clear_caps r (snd m)))" "fst m < fst x"
        "fst x \<le> length s" "m' \<in> set (ends (Star r) s x)"
    by (subst (asm) ends.simps(5)) (auto split: if_splits)
  then show ?case
  proof cases
    case 1
    then show ?thesis using "5.prems" by simp
  next
    case 2
    from "5.IH"(2)[OF 2(1) _ 2(4)] 2(2,3) show ?thesis by simp
  qed
next
  case (6 r s m)
  from "6.prems" consider "m' = m"
    | x where "x \<in> set (ends r s (fst m, clear_caps r (snd m)))" "fst m < fst x"
        "fst x \<le> length s" "m' \<in> set (ends (LazyStar r) s x)"
    by (subst (asm) ends.simps(6)) (auto split: if_splits)
  then show ?case
  proof cases
    case 1
    then show ?thesis using "6.prems" by simp
  next
    case 2
    from "6.IH"(2)[OF 2(1) _ 2(4)] 2(2,3) show ?thesis by simp
  qed
qed (auto split: if_splits)

lemma exec_from_None: "exec_from r s i = None \<longleftrightarrow> (\<forall>k. i \<le> k \<and> k \<le> length s \<longrightarrow> ends r s (k, []) = [])"
proof (induction r s i rule: exec_from.induct)
  case (1 r s i)
  show ?case
  proof (cases "length s < i")
    case True
    then show ?thesis by (subst exec_from.simps) auto
  next
    case False
    show ?thesis
    proof (cases "ends r s (i, [])")
      case Nil
      have "(\<forall>k. i \<le> k \<and> k \<le> length s \<longrightarrow> ends r s (k, []) = []) \<longleftrightarrow>
            (\<forall>k. Suc i \<le> k \<and> k \<le> length s \<longrightarrow> ends r s (k, []) = [])"
        using Nil by (metis Suc_leI le_neq_implies_less Suc_leD)
      then show ?thesis using 1 False Nil by (subst exec_from.simps) simp
    next
      case (Cons m ms)
      then show ?thesis using False by (subst exec_from.simps) force
    qed
  qed
qed

lemma exec_from_Some:
  "exec_from r s i = Some (st, m) \<Longrightarrow>
     i \<le> st \<and> st \<le> length s \<and> ends r s (st, []) \<noteq> [] \<and> m = hd (ends r s (st, []))
     \<and> (\<forall>k. i \<le> k \<and> k < st \<longrightarrow> ends r s (k, []) = [])"
proof (induction r s i rule: exec_from.induct)
  case (1 r s i)
  show ?case
  proof (cases "length s < i")
    case True
    then show ?thesis using "1.prems" by (subst (asm) exec_from.simps) auto
  next
    case False
    show ?thesis
    proof (cases "ends r s (i, [])")
      case Nil
      then have "exec_from r s (Suc i) = Some (st, m)"
        using "1.prems" False by (subst (asm) exec_from.simps) simp
      then have ih: "Suc i \<le> st \<and> st \<le> length s \<and> ends r s (st, []) \<noteq> [] \<and> m = hd (ends r s (st, []))
     \<and> (\<forall>k. Suc i \<le> k \<and> k < st \<longrightarrow> ends r s (k, []) = [])"
        using "1.IH" False Nil by simp
      then show ?thesis using Nil by (metis Suc_leD Suc_leI le_neq_implies_less)
    next
      case (Cons m0 ms)
      then have "st = i" "m = m0"
        using "1.prems" False by (subst (asm) exec_from.simps, simp)+
      then show ?thesis using Cons False by auto
    qed
  qed
qed

text \<open>
  The tests that the termination proofs of \<open>match_all\<close> and \<open>split_loop\<close> read never
  cut a loop short.
\<close>

lemma match_all_unguarded:
  "match_all r s i =
     (case exec_from r s i of
        None \<Rightarrow> []
      | Some (st, m) \<Rightarrow> (st, m) # match_all r s (if fst m = st then Suc (fst m) else fst m))"
proof (cases "exec_from r s i")
  case None
  then show ?thesis by (subst match_all.simps) simp
next
  case (Some x)
  obtain st m where x: "x = (st, m)" by (cases x)
  from exec_from_Some[OF Some[unfolded x]]
  have b: "i \<le> st" "st \<le> length s" "ends r s (st, []) \<noteq> []" "m = hd (ends r s (st, []))"
    by auto
  then have "m \<in> set (ends r s (st, []))" by simp
  then have "st \<le> fst m" using ends_mono by fastforce
  then have "i < (if fst m = st then Suc (fst m) else fst m)" "i \<le> length s" using b by auto
  then show ?thesis using Some x by (subst match_all.simps) (simp add: Let_def)
qed

lemma split_loop_unguarded:
  "split_loop r s p q =
     (if q < length s then
        (case ends r s (q, []) of
           [] \<Rightarrow> split_loop r s p (Suc q)
         | m # _ \<Rightarrow>
             (let e = min (fst m) (length s)
              in if e = p then split_loop r s p (Suc q)
                 else slice s p q # split_loop r s e e))
      else [slice s p (length s)])"
proof (cases "q < length s")
  case False
  then show ?thesis by (subst split_loop.simps) simp
next
  case True
  show ?thesis
  proof (cases "ends r s (q, [])")
    case Nil
    then show ?thesis using True by (subst split_loop.simps) simp
  next
    case (Cons m ms)
    then have "m \<in> set (ends r s (q, []))" by simp
    then have "q \<le> fst m" using ends_mono by fastforce
    then have "q \<le> min (fst m) (length s)" using True by simp
    then show ?thesis using True Cons by (subst split_loop.simps) (simp add: Let_def)
  qed
qed

section \<open>Substring tests\<close>

lemma starts_with_iff: "starts_with s p \<longleftrightarrow> (\<exists>b. s = p @ b)"
  by (induction s p rule: starts_with.induct) auto

lemma js_includes_iff: "js_includes s p \<longleftrightarrow> (\<exists>a b. s = a @ p @ b)"
proof (induction s)
  case Nil
  then show ?case by auto
next
  case (Cons c s)
  show ?case
  proof
    assume "js_includes (c # s) p"
    then consider "starts_with (c # s) p" | "js_includes s p" by auto
    then show "\<exists>a b. c # s = a @ p @ b"
    proof cases
      case 1
      then obtain b where "c # s = p @ b" by (auto simp: starts_with_iff)
      then have "c # s = [] @ p @ b" by simp
      then show ?thesis by blast
    next
      case 2
      then obtain a b where "s = a @ p @ b" using Cons.IH by auto
      then have "c # s = (c # a) @ p @ b" by simp
      then show ?thesis by blast
    qed
  next
    assume "\<exists>a b. c # s = a @ p @ b"
    then obtain a b where ab: "c # s = a @ p @ b" by auto
    show "js_includes (c # s) p"
    proof (cases a)
      case Nil
      with ab have "starts_with (c # s) p" by (auto simp: starts_with_iff)
      then show ?thesis by simp
    next
      case (Cons x a')
      with ab have "s = a' @ p @ b" by simp
      then have "js_includes s p" using Cons.IH by blast
      then show ?thesis by simp
    qed
  qed
qed

section \<open>Greedy and lazy runs of a class, and literals\<close>

lemma clear_caps_Cls [simp]: "clear_caps (Cls P) c = c"
  by (simp add: clear_caps_def)

lemma ends_Star_Cls:
  "ends (Star (Cls P)) s (i, c) =
     map (\<lambda>j. (j, c)) (rev [i ..< Suc (i + length (takeWhile P (drop i s)))])"
proof (induction "length s - i" arbitrary: i)
  case 0
  then have "drop i s = []" by simp
  then show ?case by (subst ends.simps(5)) simp
next
  case (Suc n)
  then have lt: "i < length s" by simp
  have d: "drop i s = s ! i # drop (Suc i) s" using lt by (simp add: Cons_nth_drop_Suc)
  show ?case
  proof (cases "P (s ! i)")
    case True
    have ih: "ends (Star (Cls P)) s (Suc i, c) =
      map (\<lambda>j. (j, c)) (rev [Suc i ..< Suc (Suc i + length (takeWhile P (drop (Suc i) s)))])"
      using Suc by simp
    have "[i ..< Suc (Suc i + length (takeWhile P (drop (Suc i) s)))]
          = i # [Suc i ..< Suc (Suc i + length (takeWhile P (drop (Suc i) s)))]"
      by (rule upt_conv_Cons) simp
    then show ?thesis using True lt d ih by (subst ends.simps(5)) (simp del: upt_Suc)
  next
    case False
    then show ?thesis using lt d by (subst ends.simps(5)) simp
  qed
qed

lemma ends_LazyStar_Cls:
  "ends (LazyStar (Cls P)) s (i, c) =
     map (\<lambda>j. (j, c)) [i ..< Suc (i + length (takeWhile P (drop i s)))]"
proof (induction "length s - i" arbitrary: i)
  case 0
  then have "drop i s = []" by simp
  then show ?case by (subst ends.simps(6)) simp
next
  case (Suc n)
  then have lt: "i < length s" by simp
  have d: "drop i s = s ! i # drop (Suc i) s" using lt by (simp add: Cons_nth_drop_Suc)
  show ?case
  proof (cases "P (s ! i)")
    case True
    have ih: "ends (LazyStar (Cls P)) s (Suc i, c) =
      map (\<lambda>j. (j, c)) [Suc i ..< Suc (Suc i + length (takeWhile P (drop (Suc i) s)))]"
      using Suc by simp
    have "[i ..< Suc (Suc i + length (takeWhile P (drop (Suc i) s)))]
          = i # [Suc i ..< Suc (Suc i + length (takeWhile P (drop (Suc i) s)))]"
      by (rule upt_conv_Cons) simp
    then show ?thesis using True lt d ih by (subst ends.simps(6)) (simp del: upt_Suc)
  next
    case False
    then show ?thesis using lt d by (subst ends.simps(6)) simp
  qed
qed

lemma starts_with_drop_Cons:
  "starts_with (drop i s) (x # w) \<longleftrightarrow> i < length s \<and> s ! i = x \<and> starts_with (drop (Suc i) s) w"
proof (cases "i < length s")
  case True
  then have "drop i s = s ! i # drop (Suc i) s" by (simp add: Cons_nth_drop_Suc)
  then show ?thesis using True by auto
next
  case False
  then show ?thesis by simp
qed

lemma ends_lit:
  "ends (lit w) s (i, c) = (if starts_with (drop i s) w then [(i + length w, c)] else [])"
proof (induction w arbitrary: i)
  case Nil
  then show ?case by (simp add: lit_def)
next
  case (Cons x w)
  have "lit (x # w) = Seq (Cls (\<lambda>y. y = x)) (lit w)" by (simp add: lit_def)
  then show ?case using Cons[of "Suc i"] by (auto simp: starts_with_drop_Cons)
qed

lemma ends_Star_nonempty: "ends (Star r) s m \<noteq> []"
  by (subst ends.simps(5)) simp

lemma ends_Opt_nonempty: "ends (Opt r) s m \<noteq> []"
  by simp

lemma ends_Seq_nonempty:
  "ends a s m \<noteq> [] \<Longrightarrow> (\<And>x. ends b s x \<noteq> []) \<Longrightarrow> ends (Seq a b) s m \<noteq> []"
  by (cases "ends a s m") auto

lemma ends_Seq_empty: "ends a s m = [] \<Longrightarrow> ends (Seq a b) s m = []"
  by simp

lemma ends_Seq_lit:
  "ends (Seq (lit w) r) s (i, c) =
     (if starts_with (drop i s) w then ends r s (i + length w, c) else [])"
  by (simp add: ends_lit)

lemma starts_with_append:
  "starts_with s (a @ b) \<longleftrightarrow> starts_with s a \<and> starts_with (drop (length a) s) b"
  by (induction s a rule: starts_with.induct) auto

lemma ends_literalParamRegex_empty:
  "ends (literalParamRegex name) s (i, c) = [] \<longleftrightarrow> \<not> starts_with (drop i s) (js ''--'' @ name)"
proof -
  define tail where "tail = Seq (Opt (Seq (one_or_more (Cls colon_or_space)) (one_or_more (Cls non_space))))
                   (Star (Cls is_space))"
  have tail: "ends tail s x \<noteq> []" for x
    unfolding tail_def by (rule ends_Seq_nonempty) (simp_all add: ends_Star_nonempty)
  have "ends (literalParamRegex name) s (i, c) =
          (if starts_with (drop i s) (js ''--'' @ name)
           then ends tail s (i + length (js ''--'') + length name, c) else [])"
    unfolding literalParamRegex_def tail_def[symmetric] ends_Seq_lit starts_with_append
    by (simp add: add.commute)
  then show ?thesis using tail by simp
qed

section \<open>Updating a flag that does not occur\<close>

lemma literal_name_chaos: "literal_name (js ''chaos'')"
  by (simp add: literal_name_def syntax_character_def js_def)

lemma update_literal_name:
  "literal_name paramName \<Longrightarrow>
     update prompt0 paramName newValue =
       Some (let defaultValue = default_value (lookup_info paramName);
                 valueToUse = (if trim newValue \<noteq> [] then Some (trim newValue) else defaultValue);
                 newPrompt = js_replace (literalParamRegex paramName) prompt0
                               (js ''--'' @ paramName @ js '' '' @ template valueToUse @ js '' '')
             in trim newPrompt)"
  by (simp add: update_def updateParamRegex_def Let_def)

lemmas update_chaos = update_literal_name[OF literal_name_chaos]

lemma js_includes_drop:
  "js_includes s w \<longleftrightarrow> (\<exists>k\<le>length s. starts_with (drop k s) w)"
proof
  assume "js_includes s w"
  then obtain a b where ab: "s = a @ w @ b" by (auto simp: js_includes_iff)
  then have "starts_with (drop (length a) s) w" by (simp add: starts_with_iff)
  moreover have "length a \<le> length s" using ab by simp
  ultimately show "\<exists>k\<le>length s. starts_with (drop k s) w" by blast
next
  assume "\<exists>k\<le>length s. starts_with (drop k s) w"
  then obtain k b where "drop k s = w @ b" by (auto simp: starts_with_iff)
  then have "s = take k s @ w @ b" by (metis append_take_drop_id)
  then show "js_includes s w" unfolding js_includes_iff by blast
qed

lemma exec_from_literalParamRegex:
  "exec_from (literalParamRegex name) s 0 = None \<longleftrightarrow> \<not> js_includes s (js ''--'' @ name)"
  by (simp add: exec_from_None ends_literalParamRegex_empty js_includes_drop)

lemma prompt_handleTranslate [simp]: "prompt (handleTranslate tr st text) = prompt st"
  by (simp add: handleTranslate_def Let_def split: sum.splits)

lemma prompt_analyzePrompt [simp]: "prompt (analyzePrompt tr st text) = prompt st"
  by (simp add: analyzePrompt_def)

lemma update_no_match:
  "literal_name paramName \<Longrightarrow> exec_from (literalParamRegex paramName) prompt0 0 = None \<Longrightarrow>
     update prompt0 paramName newValue = Some (trim prompt0)"
  by (simp add: update_literal_name js_replace_def Let_def)

lemma prompt_updateParameter:
  "analysis st \<noteq> None \<Longrightarrow>
     map_option prompt (updateParameter translate st paramName newValue) =
       update (prompt st) paramName newValue"
  by (auto simp: updateParameter_def Let_def split: option.splits)

section \<open>Trimming\<close>

lemma last_dropWhile: "dropWhile P xs \<noteq> [] \<Longrightarrow> last (dropWhile P xs) = last xs"
  by (induction xs) (auto split: if_splits)

lemma trim_ends:
  "trim s = [] \<or> (\<not> is_space (hd (trim s)) \<and> \<not> is_space (last (trim s)))"
proof (cases "trim s = []")
  case True
  then show ?thesis by simp
next
  case False
  define u where "u = dropWhile is_space s"
  define v where "v = dropWhile is_space (rev u)"
  have t: "trim s = rev v" by (simp add: trim_def u_def v_def)
  with False have v: "v \<noteq> []" by simp
  then have u: "u \<noteq> []" by (auto simp: v_def)
  have "\<not> is_space (hd v)" using v unfolding v_def by (rule hd_dropWhile)
  moreover have "last v = last (rev u)" using v unfolding v_def by (rule last_dropWhile)
  then have "last v = hd u" using u by (simp add: last_rev)
  moreover have "\<not> is_space (hd u)" using u unfolding u_def by (rule hd_dropWhile)
  ultimately show ?thesis using v by (simp add: t hd_rev last_rev)
qed

lemma trim_fixed:
  assumes "s = [] \<or> (\<not> is_space (hd s) \<and> \<not> is_space (last s))"
  shows "trim s = s"
proof (cases s)
  case Nil
  then show ?thesis by (simp add: trim_def)
next
  case (Cons x xs)
  with assms have h: "\<not> is_space (hd s)" and l: "\<not> is_space (last s)" by auto
  have 1: "dropWhile is_space s = s" using h Cons by simp
  have "rev s \<noteq> []" using Cons by simp
  then have "hd (rev s) = last s" using Cons by (simp add: hd_rev)
  then have 2: "dropWhile is_space (rev s) = rev s" using l Cons
    by (cases "rev s") auto
  show ?thesis by (simp add: trim_def 1 2)
qed

lemma trim_trim [simp]: "trim (trim s) = trim s"
  using trim_ends[of s] by (rule trim_fixed)

lemma trim_no_space_only: "trim s \<noteq> [] \<Longrightarrow> \<exists>c\<in>set (trim s). \<not> is_space c"
  using trim_ends[of s] by (cases "trim s") auto

section \<open>The two sentence separators\<close>

lemma ends_originalSplitRegex:
  "ends originalSplitRegex s (q, c) =
     (if 0 < q \<and> q < length s \<and> (s ! (q - 1) = 46 \<or> s ! (q - 1) = 33 \<or> s ! (q - 1) = 63)
         \<and> is_space (s ! q)
      then map (\<lambda>j. (j, c)) (rev [Suc q ..< Suc (q + length (takeWhile is_space (drop q s)))])
      else [])"
proof (cases "q < length s")
  case True
  then have d: "drop q s = s ! q # drop (Suc q) s" by (simp add: Cons_nth_drop_Suc)
  show ?thesis using True d
    by (simp add: originalSplitRegex_def one_or_more_def ends_Star_Cls del: upt_Suc)
next
  case False
  then show ?thesis by (simp add: originalSplitRegex_def one_or_more_def)
qed

lemma ends_translatedSplitRegex:
  "ends translatedSplitRegex s (q, c) =
     (if 0 < q \<and> q \<le> length s
         \<and> (s ! (q - 1) = 12290 \<or> s ! (q - 1) = 65281 \<or> s ! (q - 1) = 65311)
      then map (\<lambda>j. (j, c)) (rev [q ..< Suc (q + length (takeWhile is_space (drop q s)))])
      else [])"
  by (simp add: translatedSplitRegex_def ends_Star_Cls del: upt_Suc)

text \<open>
  The loop of \<open>split\<close> against the splitting rule of the specification, for any pattern
  that matches at \<open>q\<close> exactly after a mark (and, when white space is needed, before white
  space) and then covers the run of white space at \<open>q\<close>.
\<close>

lemma drop_run: "drop (q + length (takeWhile P (drop q s))) s = dropWhile P (drop q s)"
proof -
  have "dropWhile P (drop q s) = drop (length (takeWhile P (drop q s))) (drop q s)"
    by (rule dropWhile_eq_drop)
  then show ?thesis by (simp add: add.commute)
qed

lemma slice_Suc: "p \<le> q \<Longrightarrow> q < length s \<Longrightarrow> slice s p (Suc q) = slice s p q @ [s ! q]"
proof -
  assume a: "p \<le> q" "q < length s"
  then have "Suc q - p = Suc (q - p)" by simp
  moreover have "q - p < length (drop p s)" using a by simp
  moreover have "drop p s ! (q - p) = s ! q" using a by simp
  ultimately show ?thesis unfolding slice_def by (simp add: take_Suc_conv_app_nth)
qed

lemma slice_last:
  "p < q \<Longrightarrow> q \<le> length s \<Longrightarrow> slice s p q \<noteq> [] \<and> last (slice s p q) = s ! (q - 1)"
proof -
  assume a: "p < q" "q \<le> length s"
  then obtain k where k: "q = Suc k" by (cases q) auto
  then have "slice s p q = slice s p k @ [s ! k]" using a slice_Suc[of p k s] by simp
  then show ?thesis using k by simp
qed

lemma slice_self: "slice s i i = []"
  by (simp add: slice_def)

lemma run_bound: "q + length (takeWhile P (drop q s)) \<le> length s \<or> length s < q"
proof -
  have "length (takeWhile P (drop q s)) \<le> length (drop q s)" by (rule length_takeWhile_le)
  then show ?thesis by auto
qed

lemma run_maximal:
  "q + length (takeWhile P (drop q s)) = length s \<or> length s < q
   \<or> \<not> P (s ! (q + length (takeWhile P (drop q s))))"
proof (cases "dropWhile P (drop q s)")
  case Nil
  then have "length (takeWhile P (drop q s)) = length (drop q s)"
    by (metis append_Nil2 takeWhile_dropWhile_id)
  then show ?thesis by auto
next
  case (Cons x xs)
  then have "\<not> P (hd (dropWhile P (drop q s)))" by (metis hd_dropWhile list.distinct(1))
  moreover have "hd (dropWhile P (drop q s)) = s ! (q + length (takeWhile P (drop q s)))"
    using Cons by (metis drop_run hd_drop_conv_nth drop_eq_Nil list.distinct(1) not_le)
  ultimately show ?thesis by simp
qed

lemma split_loop_cut:
  assumes A1: "\<And>q. q < length s \<Longrightarrow>
                 (ends re s (q, []) \<noteq> [] \<longleftrightarrow>
                    0 < q \<and> mark (s ! (q - 1)) \<and> (is_space (s ! q) \<or> \<not> need))"
    and A2: "\<And>q. q < length s \<Longrightarrow> ends re s (q, []) \<noteq> [] \<Longrightarrow>
                 fst (hd (ends re s (q, []))) = q + length (takeWhile is_space (drop q s))"
    and "p \<le> q" "q \<le> length s"
    and "p = q \<Longrightarrow> q = 0 \<or> q = length s \<or> \<not> is_space (s ! q)"
  shows "split_loop re s p q = cut_after mark need (slice s p q) (drop q s)"
  using assms(3-)
proof (induction "2 * (length s - q) + (if p = q then 0 else 1 :: nat)" arbitrary: p q
       rule: less_induct)
  case less
  show ?case
  proof (cases "q < length s")
    case False
    then have "q = length s" using less.prems by simp
    then show ?thesis by (subst split_loop_unguarded) simp
  next
    case True
    then have d: "drop q s = s ! q # drop (Suc q) s" by (simp add: Cons_nth_drop_Suc)
    have step: "split_loop re s p (Suc q) =
                  cut_after mark need (slice s p q @ [s ! q]) (drop (Suc q) s)"
    proof -
      have "split_loop re s p (Suc q) = cut_after mark need (slice s p (Suc q)) (drop (Suc q) s)"
        by (rule less.hyps) (use True less.prems in \<open>auto split: if_splits\<close>)
      then show ?thesis using slice_Suc[OF less.prems(1) True] by simp
    qed
    show ?thesis
    proof (cases "ends re s (q, []) = []")
      case Nil: True
      then have nc: "\<not> (0 < q \<and> mark (s ! (q - 1)) \<and> (is_space (s ! q) \<or> \<not> need))"
        using A1[OF True] by simp
      have l: "split_loop re s p q = split_loop re s p (Suc q)"
        using True Nil by (subst split_loop_unguarded) simp
      have neg: "\<not> (slice s p q \<noteq> [] \<and> mark (last (slice s p q)) \<and> (is_space (s ! q) \<or> \<not> need))"
      proof (cases "p = q")
        case True
        then show ?thesis by (simp add: slice_self)
      next
        case False
        then have "p < q" using less.prems by simp
        then show ?thesis using slice_last[of p q s] less.prems nc by auto
      qed
      have "cut_after mark need (slice s p q) (s ! q # drop (Suc q) s) =
              cut_after mark need (slice s p q @ [s ! q]) (drop (Suc q) s)"
        by (subst cut_after.simps(2)) (simp only: neg if_False)
      then show ?thesis unfolding l step d by simp
    next
      case False
      then have c: "0 < q" "mark (s ! (q - 1))" "is_space (s ! q) \<or> \<not> need"
        using A1[OF True] by simp_all
      let ?e = "q + length (takeWhile is_space (drop q s))"
      obtain m ms where ms: "ends re s (q, []) = m # ms" using False by (cases "ends re s (q, [])") auto
      then have m: "fst m = ?e" using A2[OF True False] by simp
      have eb: "?e \<le> length s" using run_bound[of q is_space s] True by simp
      show ?thesis
      proof (cases "p = q")
        case pq: True
        then have "\<not> is_space (s ! q)" using less.prems c True by auto
        then have e: "?e = q" using d by simp
        have l: "split_loop re s p q = split_loop re s p (Suc q)"
          using True ms m e pq by (subst split_loop_unguarded) (simp add: Let_def)
        show ?thesis unfolding l step d using pq by (simp add: slice_self)
      next
        case pq: False
        then have lt: "p < q" using less.prems by simp
        then have ne: "?e \<noteq> p" by simp
        have l: "split_loop re s p q = slice s p q # split_loop re s ?e ?e"
          using True ms m ne eb by (subst split_loop_unguarded) (simp add: Let_def min_def)
        have ih: "split_loop re s ?e ?e = cut_after mark need (slice s ?e ?e) (drop ?e s)"
        proof (rule less.hyps)
          show "2 * (length s - ?e) + (if ?e = ?e then 0 else 1) <
                2 * (length s - q) + (if p = q then 0 else 1)" using pq by simp
          show "?e \<le> ?e" by simp
          show "?e \<le> length s" by (rule eb)
          show "?e = 0 \<or> ?e = length s \<or> \<not> is_space (s ! ?e)"
            using run_maximal[of q is_space s] True by auto
        qed
        have cur: "slice s p q \<noteq> []" "last (slice s p q) = s ! (q - 1)"
          using slice_last[OF lt] less.prems by simp_all
        have pos: "slice s p q \<noteq> [] \<and> mark (last (slice s p q)) \<and> (is_space (s ! q) \<or> \<not> need)"
          using cur c by simp
        have "cut_after mark need (slice s p q) (s ! q # drop (Suc q) s) =
                slice s p q # cut_after mark need [] (dropWhile is_space (s ! q # drop (Suc q) s))"
          by (subst cut_after.simps(2)) (simp only: pos if_True simp_thms)
        then have cu: "cut_after mark need (slice s p q) (drop q s) =
                slice s p q # cut_after mark need [] (dropWhile is_space (drop q s))"
          by (simp only: d[symmetric])
        show ?thesis unfolding l ih cu by (simp only: slice_self drop_run)
      qed
    qed
  qed
qed

text \<open>The two separators of the source are such patterns.\<close>

lemma space_run_positive:
  "q < length s \<Longrightarrow> is_space (s ! q) \<Longrightarrow> 0 < length (takeWhile is_space (drop q s))"
  by (simp add: Cons_nth_drop_Suc[symmetric])

lemma originalSplitRegex_matches:
  "ends originalSplitRegex s (q, []) \<noteq> [] \<longleftrightarrow>
     0 < q \<and> q < length s \<and> sentence_mark (s ! (q - 1)) \<and> is_space (s ! q)"
  using space_run_positive[of q s]
  by (auto simp: ends_originalSplitRegex sentence_mark_def simp del: upt_Suc)

lemma originalSplitRegex_end:
  "ends originalSplitRegex s (q, []) \<noteq> [] \<Longrightarrow>
     fst (hd (ends originalSplitRegex s (q, []))) = q + length (takeWhile is_space (drop q s))"
  using space_run_positive[of q s]
  by (auto simp: ends_originalSplitRegex hd_rev hd_map last_map simp del: upt_Suc split: if_splits)

lemma translatedSplitRegex_matches:
  "ends translatedSplitRegex s (q, []) \<noteq> [] \<longleftrightarrow>
     0 < q \<and> q \<le> length s \<and> cjk_sentence_mark (s ! (q - 1))"
  by (auto simp: ends_translatedSplitRegex cjk_sentence_mark_def simp del: upt_Suc)

lemma translatedSplitRegex_end:
  "ends translatedSplitRegex s (q, []) \<noteq> [] \<Longrightarrow>
     fst (hd (ends translatedSplitRegex s (q, []))) = q + length (takeWhile is_space (drop q s))"
  by (auto simp: ends_translatedSplitRegex split: if_splits)

lemma js_split_original:
  "js_split originalSplitRegex text = cut_after sentence_mark True [] text"
proof (cases "text = []")
  case True
  then show ?thesis by (simp add: js_split_def ends_originalSplitRegex)
next
  case False
  have "split_loop originalSplitRegex text 0 0 =
          cut_after sentence_mark True (slice text 0 0) (drop 0 text)"
    by (rule split_loop_cut) (auto simp: originalSplitRegex_matches originalSplitRegex_end)
  then show ?thesis using False by (simp add: js_split_def slice_self)
qed

lemma js_split_translated:
  "js_split translatedSplitRegex result = cut_after cjk_sentence_mark False [] result"
proof (cases "result = []")
  case True
  then show ?thesis by (simp add: js_split_def ends_translatedSplitRegex)
next
  case False
  have "split_loop translatedSplitRegex result 0 0 =
          cut_after cjk_sentence_mark False (slice result 0 0) (drop 0 result)"
    by (rule split_loop_cut) (auto simp: translatedSplitRegex_matches translatedSplitRegex_end)
  then show ?thesis using False by (simp add: js_split_def slice_self)
qed

lemma trim_then_drop:
  "map trim (filter (\<lambda>part. trim part \<noteq> []) xs) = filter (\<lambda>piece. piece \<noteq> []) (map trim xs)"
  by (induction xs) auto

lemma originalParts_pieces: "originalParts text = sentence_pieces sentence_mark True text"
  by (simp add: originalParts_def sentence_pieces_def js_split_original trim_then_drop)

lemma translatedParts_pieces:
  "translatedParts result = sentence_pieces cjk_sentence_mark False result"
  by (simp add: translatedParts_def sentence_pieces_def js_split_translated trim_then_drop)

lemma align_originals: "map original (align text result) = originalParts text"
  by (simp add: align_def map_snd_enumerate comp_def case_prod_unfold)

lemma all_dropWhile: "(\<forall>x\<in>set (dropWhile P xs). P x) \<longleftrightarrow> (\<forall>x\<in>set xs. P x)"
  by (induction xs) auto

lemma cut_after_blank:
  "(\<forall>p\<in>set (cut_after mark need cur rest). \<forall>c\<in>set p. is_space c) \<longleftrightarrow>
     (\<forall>c\<in>set (cur @ rest). is_space c)"
proof (induction mark need cur rest rule: cut_after.induct)
  case (1 mark need_space cur)
  then show ?case by simp
next
  case (2 mark need_space cur c cs)
  show ?case
  proof (cases "cur \<noteq> [] \<and> mark (last cur) \<and> (is_space c \<or> \<not> need_space)")
    case True
    have "(\<forall>p\<in>set (cut_after mark need_space [] (dropWhile is_space (c # cs))).
             \<forall>c\<in>set p. is_space c) \<longleftrightarrow>
          (\<forall>x\<in>set (dropWhile is_space (c # cs)). is_space x)"
      using 2(1)[OF True] by simp
    also have "\<dots> \<longleftrightarrow> (\<forall>x\<in>set (c # cs). is_space x)" by (rule all_dropWhile)
    finally show ?thesis
      by (subst cut_after.simps(2)) (simp only: True if_True, auto)
  next
    case False
    show ?thesis using 2(2)[OF False]
      by (subst cut_after.simps(2)) (simp only: False if_False, auto)
  qed
qed

section \<open>The shape of the alignment\<close>

lemma align_length: "length (align text result) = length (originalParts text)"
  by (simp add: align_def)

lemma align_nth:
  "i < length (originalParts text) \<Longrightarrow>
     align text result ! i =
       \<lparr>original = originalParts text ! i,
        translated = part_or_empty (translatedParts result) i,
        index = i\<rparr>"
  by (simp add: align_def nth_enumerate_eq)

lemma originalParts_example1:
  "originalParts (js ''One. Two. Three.'') = [js ''One.'', js ''Two.'', js ''Three.'']"
  by (simp add: originalParts_def js_split_def originalSplitRegex_def js_eval)

lemma translatedParts_example1: "translatedParts [19968, 12290] = [[19968, 12290]]"
  by (simp add: translatedParts_def js_split_def translatedSplitRegex_def js_eval)

lemma originalParts_example2:
  "originalParts (js ''A cat. A dog!'') = [js ''A cat.'', js ''A dog!'']"
  by (simp add: originalParts_def js_split_def originalSplitRegex_def js_eval)

lemma translatedParts_example2:
  "translatedParts [19968, 21482, 29483, 12290, 19968, 21482, 29399, 65281] =
     [[19968, 21482, 29483, 12290], [19968, 21482, 29399, 65281]]"
  by (simp add: translatedParts_def js_split_def translatedSplitRegex_def js_eval)

text \<open>
  Claim C5. \<open>align\<close> returns one pair per original sentence part: pair \<open>i\<close> holds
  \<open>originalParts[i]\<close>, the translated part at the same index when there is one and the
  empty string otherwise, and the index \<open>i\<close>; translated parts past the last original
  part appear nowhere. For \<open>One. Two. Three.\<close> against one translated sentence, pairs 1
  and 2 have an empty translation.
\<close>

theorem align_pairs_by_index:
  "length (align text result) = length (originalParts text)
   \<and> (\<forall>i<length (originalParts text).
         original (align text result ! i) = originalParts text ! i
       \<and> translated (align text result ! i) =
           (if i < length (translatedParts result) then translatedParts result ! i else [])
       \<and> index (align text result ! i) = i)
   \<and> align (js ''One. Two. Three.'') [19968, 12290] =
       [\<lparr>original = js ''One.'', translated = [19968, 12290], index = 0\<rparr>,
        \<lparr>original = js ''Two.'', translated = [], index = 1\<rparr>,
        \<lparr>original = js ''Three.'', translated = [], index = 2\<rparr>]"
proof (intro conjI allI impI)
  show "align (js ''One. Two. Three.'') [19968, 12290] =
       [\<lparr>original = js ''One.'', translated = [19968, 12290], index = 0\<rparr>,
        \<lparr>original = js ''Two.'', translated = [], index = 1\<rparr>,
        \<lparr>original = js ''Three.'', translated = [], index = 2\<rparr>]"
    by (simp add: align_def originalParts_example1 translatedParts_example1 part_or_empty_def)
qed (simp_all add: align_length align_nth part_or_empty_def)

theorem align_pairs_by_index_witness:
  "2 < length (originalParts (js ''A. B. C. D.''))
   \<and> original (align (js ''A. B. C. D.'') [19968, 12290, 19968, 12290] ! 2) = js ''C.''
   \<and> translated (align (js ''A. B. C. D.'') [19968, 12290, 19968, 12290] ! 2) = []
   \<and> translated (align (js ''A. B. C. D.'') [19968, 12290, 19968, 12290] ! 1) = [19968, 12290]
   \<and> index (align (js ''A. B. C. D.'') [19968, 12290, 19968, 12290] ! 2) = 2"
proof -
  have o: "originalParts (js ''A. B. C. D.'') = [js ''A.'', js ''B.'', js ''C.'', js ''D.'']"
    by (simp add: originalParts_def js_split_def originalSplitRegex_def js_eval)
  have t: "translatedParts [19968, 12290, 19968, 12290] = [[19968, 12290], [19968, 12290]]"
    by (simp add: translatedParts_def js_split_def translatedSplitRegex_def js_eval)
  show ?thesis
    using align_pairs_by_index [of "js ''A. B. C. D.''" "[19968, 12290, 19968, 12290]"]
    by (simp add: o t)
qed

text \<open>
  Claim C6. The pieces of the original text are those that the splitting rule of the
  specification cuts at white space immediately following a period, an exclamation mark or
  a question mark; the pieces of the translated text are those it cuts after an ideographic
  full stop or a full-width exclamation or question mark, whether white space follows or
  not. In both cases each piece is trimmed and the empty ones are dropped, and \<open>align\<close>
  pairs the results: its originals are the former, and the translation at index \<open>i\<close> is
  the latter's entry \<open>i\<close>, if there is one. In terms of the two patterns: the separator
  of the original text matches at \<open>q\<close> exactly when the character before \<open>q\<close> is one
  of the three marks and the character at \<open>q\<close> is white space, and it then covers the
  whole run of white space; the separator of the translated text matches exactly after one
  of its three marks and covers the (possibly empty) run of white space there. Every piece
  kept is trimmed and non-empty. On \<open>A cat. A dog!\<close> and its translation \<open>align\<close>
  gives the two pairs of the example.
\<close>

theorem sentence_split_points:
  "js_split originalSplitRegex text = cut_after sentence_mark True [] text
   \<and> js_split translatedSplitRegex result = cut_after cjk_sentence_mark False [] result
   \<and> originalParts text = sentence_pieces sentence_mark True text
   \<and> translatedParts result = sentence_pieces cjk_sentence_mark False result
   \<and> map original (align text result) = sentence_pieces sentence_mark True text
   \<and> (\<forall>i<length (align text result).
         translated (align text result ! i) =
           (if i < length (sentence_pieces cjk_sentence_mark False result)
            then sentence_pieces cjk_sentence_mark False result ! i else []))
   \<and> (ends originalSplitRegex text (q, []) \<noteq> [] \<longleftrightarrow>
      0 < q \<and> q < length text
      \<and> (text ! (q - 1) = 46 \<or> text ! (q - 1) = 33 \<or> text ! (q - 1) = 63)
      \<and> is_space (text ! q))
   \<and> (ends originalSplitRegex text (q, []) \<noteq> [] \<longrightarrow>
        fst (hd (ends originalSplitRegex text (q, []))) =
          q + length (takeWhile is_space (drop q text)))
   \<and> (ends translatedSplitRegex result (q, []) \<noteq> [] \<longleftrightarrow>
        0 < q \<and> q \<le> length result
        \<and> (result ! (q - 1) = 12290 \<or> result ! (q - 1) = 65281 \<or> result ! (q - 1) = 65311))
   \<and> (ends translatedSplitRegex result (q, []) \<noteq> [] \<longrightarrow>
        fst (hd (ends translatedSplitRegex result (q, []))) =
          q + length (takeWhile is_space (drop q result)))
   \<and> (\<forall>p\<in>set (originalParts text). p \<noteq> [] \<and> trim p = p)
   \<and> (\<forall>p\<in>set (translatedParts result). p \<noteq> [] \<and> trim p = p)
   \<and> align (js ''A cat. A dog!'') [19968, 21482, 29483, 12290, 19968, 21482, 29399, 65281] =
       [\<lparr>original = js ''A cat.'', translated = [19968, 21482, 29483, 12290], index = 0\<rparr>,
        \<lparr>original = js ''A dog!'', translated = [19968, 21482, 29399, 65281], index = 1\<rparr>]"
proof (intro conjI)
  show "js_split originalSplitRegex text = cut_after sentence_mark True [] text"
    by (rule js_split_original)
  show "js_split translatedSplitRegex result = cut_after cjk_sentence_mark False [] result"
    by (rule js_split_translated)
  show "originalParts text = sentence_pieces sentence_mark True text"
    by (rule originalParts_pieces)
  show "translatedParts result = sentence_pieces cjk_sentence_mark False result"
    by (rule translatedParts_pieces)
  show "map original (align text result) = sentence_pieces sentence_mark True text"
    by (simp add: align_originals originalParts_pieces)
  show "\<forall>i<length (align text result).
         translated (align text result ! i) =
           (if i < length (sentence_pieces cjk_sentence_mark False result)
            then sentence_pieces cjk_sentence_mark False result ! i else [])"
    by (simp add: align_length align_nth part_or_empty_def translatedParts_pieces)
  show "ends originalSplitRegex text (q, []) \<noteq> [] \<longleftrightarrow>
      0 < q \<and> q < length text
      \<and> (text ! (q - 1) = 46 \<or> text ! (q - 1) = 33 \<or> text ! (q - 1) = 63)
      \<and> is_space (text ! q)"
    by (simp add: originalSplitRegex_matches sentence_mark_def)
  show "ends originalSplitRegex text (q, []) \<noteq> [] \<longrightarrow>
        fst (hd (ends originalSplitRegex text (q, []))) =
          q + length (takeWhile is_space (drop q text))"
    using originalSplitRegex_end by blast
  show "ends translatedSplitRegex result (q, []) \<noteq> [] \<longleftrightarrow>
        0 < q \<and> q \<le> length result
        \<and> (result ! (q - 1) = 12290 \<or> result ! (q - 1) = 65281 \<or> result ! (q - 1) = 65311)"
    by (simp add: translatedSplitRegex_matches cjk_sentence_mark_def)
  show "ends translatedSplitRegex result (q, []) \<noteq> [] \<longrightarrow>
        fst (hd (ends translatedSplitRegex result (q, []))) =
          q + length (takeWhile is_space (drop q result))"
    using translatedSplitRegex_end by blast
  show "\<forall>p\<in>set (originalParts text). p \<noteq> [] \<and> trim p = p"
    by (auto simp: originalParts_def)
  show "\<forall>p\<in>set (translatedParts result). p \<noteq> [] \<and> trim p = p"
    by (auto simp: translatedParts_def)
  show "align (js ''A cat. A dog!'') [19968, 21482, 29483, 12290, 19968, 21482, 29399, 65281] =
       [\<lparr>original = js ''A cat.'', translated = [19968, 21482, 29483, 12290], index = 0\<rparr>,
        \<lparr>original = js ''A dog!'', translated = [19968, 21482, 29399, 65281], index = 1\<rparr>]"
    by (simp add: align_def originalParts_example2 translatedParts_example2 part_or_empty_def)
qed

theorem sentence_split_points_witness:
  "ends originalSplitRegex (js ''A cat. A dog!'') (6, []) \<noteq> []
   \<and> fst (hd (ends originalSplitRegex (js ''A cat. A dog!'') (6, []))) = 7
   \<and> ends translatedSplitRegex [19968, 21482, 29483, 19968, 19968, 12290, 32, 19968] (6, []) \<noteq> []
   \<and> fst (hd (ends translatedSplitRegex [19968, 21482, 29483, 19968, 19968, 12290, 32, 19968] (6, []))) = 7
   \<and> js ''A dog!'' \<in> set (originalParts (js ''A cat. A dog!''))
   \<and> trim (js ''A dog!'') = js ''A dog!''
   \<and> sentence_pieces sentence_mark True (js ''A cat. A dog!'') = [js ''A cat.'', js ''A dog!'']
   \<and> 1 < length (align (js ''A cat. A dog!'') [19968, 12290, 32, 19968, 65311])
   \<and> translated (align (js ''A cat. A dog!'') [19968, 12290, 32, 19968, 65311] ! 1) = [19968, 65311]"
proof -
  have o: "originalParts (js ''A cat. A dog!'') = [js ''A cat.'', js ''A dog!'']"
    by (rule originalParts_example2)
  have t: "translatedParts [19968, 12290, 32, 19968, 65311] = [[19968, 12290], [19968, 65311]]"
    by (simp add: translatedParts_def js_split_def translatedSplitRegex_def js_eval)
  have l: "length (align (js ''A cat. A dog!'') [19968, 12290, 32, 19968, 65311]) = 2"
    by (simp add: align_length o)
  have s: "trim (js ''A dog!'') = js ''A dog!''" "is_space (js ''A cat. A dog!'' ! 6)"
    "js ''A cat. A dog!'' ! 5 = 46" "length (js ''A cat. A dog!'') = 13"
    "takeWhile is_space (drop 6 (js ''A cat. A dog!'')) = [32]"
    by (simp_all add: js_def trim_def is_space_def)
  note a = sentence_split_points
            [of "js ''A cat. A dog!''" "[19968, 21482, 29483, 19968, 19968, 12290, 32, 19968]" 6]
  note b = sentence_split_points [of "js ''A cat. A dog!''" "[19968, 12290, 32, 19968, 65311]" 6]
  have 1: "ends originalSplitRegex (js ''A cat. A dog!'') (6, []) \<noteq> []"
    using a by (simp add: s)
  have 2: "fst (hd (ends originalSplitRegex (js ''A cat. A dog!'') (6, []))) = 7"
    using a 1 by (simp add: s)
  have 3: "ends translatedSplitRegex [19968, 21482, 29483, 19968, 19968, 12290, 32, 19968] (6, []) \<noteq> []"
    using a by simp
  have 4: "fst (hd (ends translatedSplitRegex [19968, 21482, 29483, 19968, 19968, 12290, 32, 19968] (6, []))) = 7"
    using a 3 by (simp add: is_space_def)
  from b have "originalParts (js ''A cat. A dog!'') =
                 sentence_pieces sentence_mark True (js ''A cat. A dog!'')"
    by blast
  then have 5: "sentence_pieces sentence_mark True (js ''A cat. A dog!'') = [js ''A cat.'', js ''A dog!'']"
    unfolding o by (rule sym)
  from b have "translatedParts [19968, 12290, 32, 19968, 65311] =
                 sentence_pieces cjk_sentence_mark False [19968, 12290, 32, 19968, 65311]"
    by blast
  then have sp: "sentence_pieces cjk_sentence_mark False [19968, 12290, 32, 19968, 65311] =
                   [[19968, 12290], [19968, 65311]]"
    unfolding t by (rule sym)
  from b have "\<forall>i<length (align (js ''A cat. A dog!'') [19968, 12290, 32, 19968, 65311]).
         translated (align (js ''A cat. A dog!'') [19968, 12290, 32, 19968, 65311] ! i) =
           (if i < length (sentence_pieces cjk_sentence_mark False [19968, 12290, 32, 19968, 65311])
            then sentence_pieces cjk_sentence_mark False [19968, 12290, 32, 19968, 65311] ! i
            else [])"
    by blast
  then have 6: "translated (align (js ''A cat. A dog!'') [19968, 12290, 32, 19968, 65311] ! 1) = [19968, 65311]"
    unfolding l sp by simp
  show ?thesis using 1 2 3 4 5 6 by (simp add: o l s)
qed

section \<open>Default values and adding a flag\<close>

lemma default_value_policy:
  assumes "info_default info \<noteq> Some []" and "info_values info \<noteq> Some []"
  shows "template (default_value (Some info)) = policy_default (Some info)"
  using assms
  by (auto simp: default_value_def policy_default_def template_def Let_def
           split: option.splits list.splits)

lemma default_value_unknown: "template (default_value None) = policy_default None"
  by (simp add: default_value_def policy_default_def template_def)

lemma catalog_well_formed:
  "(k, info) \<in> set PARAMETER_INFO \<Longrightarrow>
     info_default info \<noteq> Some [] \<and> info_values info \<noteq> Some []"
  by (auto simp: PARAMETER_INFO_def js_def)

lemma lookup_info_catalog:
  "map_of PARAMETER_INFO name = Some info \<Longrightarrow> lookup_info name = Some info"
  by (simp add: lookup_info_def)

lemma catalog_default:
  assumes "name \<noteq> js ''constructor''"
  shows "template (default_value (lookup_info name)) =
           policy_default (map_of PARAMETER_INFO name)"
proof (cases "map_of PARAMETER_INFO name")
  case None
  then show ?thesis using assms
    by (simp add: lookup_info_def default_value_def policy_default_def template_def)
next
  case (Some info)
  then have "(name, info) \<in> set PARAMETER_INFO" by (rule map_of_SomeD)
  then show ?thesis
    using Some catalog_well_formed default_value_policy by (simp add: lookup_info_catalog)
qed

lemma constructor_lookup:
  "lookup_info (js ''constructor'') =
     Some \<lparr>info_values = Some [], info_default = None, info_type = None,
           info_min = None, info_max = None\<rparr>"
  by (simp add: lookup_info_def PARAMETER_INFO_def js_def)

lemma constructor_default:
  "template (default_value (lookup_info (js ''constructor''))) = js ''undefined''"
  unfolding constructor_lookup by (simp add: default_value_def template_def)

lemma trim_append_word:
  assumes "w \<noteq> []" and "\<not> is_space (last w)"
  shows "trim (p @ w) = dropWhile is_space (p @ w)"
proof -
  have "last (p @ w) = last w" using assms by simp
  have n: "dropWhile is_space (p @ w) \<noteq> []"
    using assms by (metis dropWhile_eq_Nil_conv last_in_set last_appendR Nil_is_append_conv)
  then have "last (dropWhile is_space (p @ w)) = last w"
    using assms by (simp add: last_dropWhile)
  then have "hd (rev (dropWhile is_space (p @ w))) = last w"
    using n by (simp add: hd_rev)
  then have "dropWhile is_space (rev (dropWhile is_space (p @ w))) = rev (dropWhile is_space (p @ w))"
    using assms n by (cases "rev (dropWhile is_space (p @ w))") auto
  then show ?thesis by (simp add: trim_def)
qed

lemma style_info:
  "lookup_info (js ''style'') =
     Some \<lparr>info_values = Some [js ''raw''], info_default = None, info_type = Some Text,
           info_min = None, info_max = None\<rparr>"
  by (simp add: lookup_info_def PARAMETER_INFO_def js_def)

lemma add_style: "add prompt0 (js ''style'') = Inr (trim (prompt0 @ js '' --style raw''))"
  by (simp add: add_def style_info default_value_def template_def) (simp add: js_def)

lemma trim_eq_Nil_iff: "trim s = [] \<longleftrightarrow> (\<forall>c\<in>set s. is_space c)"
proof
  assume t: "trim s = []"
  show "\<forall>c\<in>set s. is_space c"
  proof (rule ccontr)
    assume "\<not> (\<forall>c\<in>set s. is_space c)"
    then have u: "dropWhile is_space s \<noteq> []" unfolding dropWhile_eq_Nil_conv .
    then have "\<not> is_space (hd (dropWhile is_space s))" by (rule hd_dropWhile)
    moreover have "hd (dropWhile is_space s) \<in> set (rev (dropWhile is_space s))"
      using u by simp
    ultimately have "dropWhile is_space (rev (dropWhile is_space s)) \<noteq> []"
      unfolding dropWhile_eq_Nil_conv by blast
    then show False using t by (simp add: trim_def)
  qed
next
  assume "\<forall>c\<in>set s. is_space c"
  then have d: "dropWhile is_space s = []" unfolding dropWhile_eq_Nil_conv .
  show "trim s = []" unfolding trim_def d by simp
qed

lemma add_style_shape:
  "add prompt0 (js ''style'') =
     Inr (if trim prompt0 = [] then js ''--style raw''
          else dropWhile is_space prompt0 @ js '' --style raw'')"
proof -
  have w: "js '' --style raw'' \<noteq> []" "\<not> is_space (last (js '' --style raw''))"
    by (simp_all add: js_def is_space_def)
  have d: "dropWhile is_space (js '' --style raw'') = js ''--style raw''"
    by (simp add: js_def is_space_def)
  show ?thesis
  proof (cases "trim prompt0 = []")
    case True
    then have "\<forall>c\<in>set prompt0. is_space c" by (simp add: trim_eq_Nil_iff)
    then have "dropWhile is_space (prompt0 @ js '' --style raw'') = js ''--style raw''"
      by (simp add: dropWhile_append2 d)
    then show ?thesis using True
      by (simp add: add_style trim_append_word[OF w])
  next
    case False
    then obtain c where "c \<in> set prompt0" "\<not> is_space c" by (auto simp: trim_eq_Nil_iff)
    then have "dropWhile is_space (prompt0 @ js '' --style raw'') =
               dropWhile is_space prompt0 @ js '' --style raw''"
      by (rule dropWhile_append1)
    then show ?thesis using False
      by (simp add: add_style trim_append_word[OF w])
  qed
qed

text \<open>
  Claim C2, as the code has it. For every name but \<open>constructor\<close> the default that
  \<open>updateParameter\<close> and \<open>handleAddParameter\<close> compute is the one of the policy on
  the catalog: the catalog default, else for a number the string of the minimum or \<open>1\<close>,
  else the first allowed value, else \<open>1\<close>. \<open>update\<close> with a blank candidate, for such a
  name and the pattern built for it, writes that default; \<open>add\<close> on a catalog key returns
  the trim of the prompt, one space, \<open>--key\<close>, one space and the default. For \<open>style\<close>
  the result is the trim of \<open>prompt + " --style raw"\<close>: the prompt without its leading
  white space, one space and \<open>--style raw\<close>, or \<open>--style raw\<close> alone when the prompt is
  blank. Trailing white space of the prompt is kept.
\<close>

theorem default_resolution_and_add:
  "(name \<noteq> js ''constructor'' \<longrightarrow>
      template (default_value (lookup_info name)) = policy_default (map_of PARAMETER_INFO name))
   \<and> (name \<noteq> js ''constructor'' \<and> updateParamRegex name = Some re \<and> trim newValue = [] \<longrightarrow>
        update prompt0 name newValue =
          Some (trim (js_replace re prompt0
                  (js ''--'' @ name @ js '' '' @ policy_default (map_of PARAMETER_INFO name)
                     @ js '' ''))))
   \<and> (map_of PARAMETER_INFO name \<noteq> None \<longrightarrow>
        add prompt0 name =
          Inr (trim (prompt0 @ js '' --'' @ name @ js '' ''
                       @ policy_default (map_of PARAMETER_INFO name))))
   \<and> add prompt0 (js ''style'') = Inr (trim (prompt0 @ js '' --style raw''))
   \<and> add prompt0 (js ''style'') =
        Inr (if trim prompt0 = [] then js ''--style raw''
             else dropWhile is_space prompt0 @ js '' --style raw'')"
proof (intro conjI impI)
  show "template (default_value (lookup_info name)) =
     policy_default (map_of PARAMETER_INFO name)" if "name \<noteq> js ''constructor''"
    using that by (rule catalog_default)
  show "update prompt0 name newValue =
          Some (trim (js_replace re prompt0
                  (js ''--'' @ name @ js '' '' @ policy_default (map_of PARAMETER_INFO name)
                     @ js '' '')))"
    if "name \<noteq> js ''constructor'' \<and> updateParamRegex name = Some re \<and> trim newValue = []"
    using that by (simp add: update_def Let_def catalog_default)
  show "add prompt0 name =
          Inr (trim (prompt0 @ js '' --'' @ name @ js '' ''
                       @ policy_default (map_of PARAMETER_INFO name)))"
    if "map_of PARAMETER_INFO name \<noteq> None"
  proof -
    from that obtain info where i: "map_of PARAMETER_INFO name = Some info" by auto
    then have "(name, info) \<in> set PARAMETER_INFO" by (rule map_of_SomeD)
    then have "template (default_value (Some info)) = policy_default (Some info)"
      using catalog_well_formed default_value_policy by blast
    then show ?thesis using i by (simp add: add_def lookup_info_catalog)
  qed
  show "add prompt0 (js ''style'') = Inr (trim (prompt0 @ js '' --style raw''))"
    by (rule add_style)
  show "add prompt0 (js ''style'') =
        Inr (if trim prompt0 = [] then js ''--style raw''
             else dropWhile is_space prompt0 @ js '' --style raw'')"
    by (rule add_style_shape)
qed

theorem default_resolution_and_add_witness:
  "js ''chaos'' \<noteq> js ''constructor''
   \<and> updateParamRegex (js ''chaos'') = Some (literalParamRegex (js ''chaos''))
   \<and> trim (js ''  '') = []
   \<and> update (js ''cat --chaos 7 dog'') (js ''chaos'') (js ''  '') =
       Some (js ''cat --chaos 0 dog'')
   \<and> map_of PARAMETER_INFO (js ''stop'') \<noteq> None
   \<and> add (js ''cat'') (js ''stop'') = Inr (js ''cat --stop 10'')
   \<and> add (js '' cat'') (js ''style'') = Inr (js ''cat --style raw'')"
proof -
  have 0: "js ''chaos'' \<noteq> js ''constructor''" by (simp add: js_def)
  have 1: "trim (js ''  '') = []" by (simp add: js_def trim_def is_space_def)
  have 2: "policy_default (map_of PARAMETER_INFO (js ''chaos'')) = js ''0''"
    by (simp add: PARAMETER_INFO_def js_def policy_default_def number_to_string_def)
  have 3: "js_replace (literalParamRegex (js ''chaos'')) (js ''cat --chaos 7 dog'')
             (js ''--chaos 0 '') = js ''cat --chaos 0 dog''"
    by (simp add: js_replace_def literalParamRegex_def js_def re_defs cls_defs loop_simps matched_def)
  have 4: "map_of PARAMETER_INFO (js ''stop'') \<noteq> None"
    by (simp add: PARAMETER_INFO_def js_def)
  have 5: "policy_default (map_of PARAMETER_INFO (js ''stop'')) = js ''10''"
    by (simp add: PARAMETER_INFO_def js_def policy_default_def number_to_string_def)
  have 6: "updateParamRegex (js ''chaos'') = Some (literalParamRegex (js ''chaos''))"
    by (simp add: updateParamRegex_def literal_name_def syntax_character_def js_def)
  have 7: "trim (js ''cat --chaos 0 dog'') = js ''cat --chaos 0 dog''"
    "trim (js ''cat --stop 10'') = js ''cat --stop 10''"
    by (simp_all add: js_def trim_def is_space_def)
  have 8: "js ''--'' @ js ''chaos'' @ js '' '' @ js ''0'' @ js '' '' = js ''--chaos 0 ''"
    "js ''cat'' @ js '' --'' @ js ''stop'' @ js '' '' @ js ''10'' = js ''cat --stop 10''"
    by (simp_all add: js_def)
  show ?thesis
    using default_resolution_and_add [of "js ''chaos''" "literalParamRegex (js ''chaos'')"
            "js ''  ''" "js ''cat --chaos 7 dog''"]
      default_resolution_and_add [of "js ''stop''" _ _ "js ''cat''"]
      default_resolution_and_add [of "js ''style''" _ _ "js '' cat''"]
    by (simp add: 0 1 2 3 4 5 6 7 8) (simp add: js_def is_space_def trim_def)
qed

text \<open>
  The prompt \<open>a\<close> followed by a space: the result has two spaces before the flag, so it is
  not the trimmed prompt, one space and \<open>--style raw\<close>.
\<close>

theorem add_style_counterexample:
  "add (js ''a '') (js ''style'') = Inr (js ''a  --style raw'')
   \<and> add (js ''a '') (js ''style'') \<noteq> Inr (trim (js ''a '') @ js '' --style raw'')"
  by (simp add: add_style) (simp add: js_def trim_def is_space_def)

section \<open>A flag followed by another line\<close>

lemma two_lines_urls: "js_remove_g imageUrlRegex (js ''cat --ar 16:9'' @ 10 # js ''dog'') = js ''cat --ar 16:9'' @ 10 # js ''dog''"
  by (simp add: js_remove_g_def imageUrlRegex_def imageExtensions_def js_def re_defs cls_defs loop_simps)

lemma two_lines_flags: "js_replace flagTailRegex (js ''cat --ar 16:9'' @ 10 # js ''dog'') [] = js ''cat --ar 16:9'' @ 10 # js ''dog''"
  by (simp add: js_replace_def flagTailRegex_def js_def re_defs cls_defs loop_simps)

lemma two_lines_mentions: "js_remove_g mentionRegex (js ''cat --ar 16:9'' @ 10 # js ''dog'') = js ''cat --ar 16:9'' @ 10 # js ''dog''"
  by (simp add: js_remove_g_def mentionRegex_def js_def re_defs cls_defs loop_simps)

lemma two_lines_ratios: "js_remove_g ratioRegex (js ''cat --ar 16:9'' @ 10 # js ''dog'') = js ''cat --ar '' @ 10 # js ''dog''"
  by (simp add: js_remove_g_def ratioRegex_def js_def re_defs cls_defs loop_simps)

lemma two_lines_numbers: "js_remove_g numberRegex (js ''cat --ar '' @ 10 # js ''dog'') = js ''cat --ar '' @ 10 # js ''dog''"
  by (simp add: js_remove_g_def numberRegex_def js_def re_defs cls_defs loop_simps)

lemma two_lines_parens: "js_remove_g parenRegex (js ''cat --ar '' @ 10 # js ''dog'') = js ''cat --ar '' @ 10 # js ''dog''"
  by (simp add: js_remove_g_def parenRegex_def js_def re_defs cls_defs loop_simps)

lemma two_lines_comma: "trim (js_replace trailingCommaRegex (js ''cat --ar '' @ 10 # js ''dog'') []) = js ''cat --ar '' @ 10 # js ''dog''"
  by (simp add: js_replace_def trailingCommaRegex_def js_def re_defs cls_defs loop_simps trim_def)

lemma two_lines_descriptionText:
  "descriptionText (js ''cat --ar 16:9'' @ 10 # js ''dog'') = js ''cat --ar '' @ 10 # js ''dog''"
  by (simp only: descriptionText_def Let_def two_lines_urls two_lines_flags two_lines_mentions two_lines_ratios two_lines_numbers two_lines_parens two_lines_comma)

text \<open>
  Claim C1, at a text of two lines. The claim says that everything from the first \<open>--\<close>
  to the end of the whole text is removed before the split into lines, as the source's
  comment on that step says too. The pattern \<^verbatim>\<open>/--.*$/\<close> cannot cross a line
  terminator and \<open>$\<close> is the end of the text, so with a flag on the first line and a
  second line after it nothing is cut: the flag stays in the first description and the
  second line is a description.
\<close>

theorem flag_on_first_line_stays_in_descriptions:
  "descriptions (analyze (js ''cat --ar 16:9'' @ 10 # js ''dog'')) = [js ''cat --ar'', js ''dog'']"
  unfolding analyze_def two_lines_descriptionText
  by (simp add: js_def trim_def is_space_def)

section \<open>A match depends only on the text it covers\<close>

lemma ends_window:
  assumes "plain r" and "m' \<in> set (ends r s m)" and "a \<le> fst m" and "fst m' \<le> length s"
    and "fst m' - a \<le> length t"
    and "\<forall>k. fst m \<le> k \<and> k < fst m' \<longrightarrow> t ! (k - a) = s ! k"
  shows "(fst m' - a, snd m') \<in> set (ends r t (fst m - a, snd m))"
  using assms
proof (induction r s m arbitrary: m' rule: ends.induct)
  case (1 s m)
  then show ?case by simp
next
  case (2 P s m)
  from "2.prems"(2) have c: "fst m < length s" "P (s ! fst m)" "m' = (Suc (fst m), snd m)"
    by (auto split: if_splits)
  have "t ! (fst m - a) = s ! fst m" using "2.prems"(6) c by simp
  moreover have "fst m - a < length t" using "2.prems"(3,5) c by simp
  moreover have "Suc (fst m) - a = Suc (fst m - a)" using "2.prems"(3) by simp
  ultimately show ?case using c by simp
next
  case (3 p q s m)
  from "3.prems"(2) obtain x where x: "x \<in> set (ends p s m)" "m' \<in> set (ends q s x)"
    by auto
  have le: "fst m \<le> fst x" "fst x \<le> fst m'" using x ends_mono by blast+
  have 1: "(fst x - a, snd x) \<in> set (ends p t (fst m - a, snd m))"
    using "3.IH"(1)[of x] "3.prems" x le by simp
  have 2: "(fst m' - a, snd m') \<in> set (ends q t (fst x - a, snd x))"
    using "3.IH"(2)[OF x(1), of m'] "3.prems" x le by simp
  show ?case using 1 2 by auto
next
  case (4 p q s m)
  from "4.prems"(2) consider "m' \<in> set (ends p s m)" | "m' \<in> set (ends q s m)" by auto
  then show ?case
  proof cases
    case 1
    then show ?thesis using "4.IH"(1)[of m'] "4.prems" by simp
  next
    case 2
    then show ?thesis using "4.IH"(2)[of m'] "4.prems" by simp
  qed
next
  case (5 r s m)
  from "5.prems"(2) consider "m' = m"
    | x where "x \<in> set (ends r s (fst m, clear_caps r (snd m)))" "fst m < fst x"
        "fst x \<le> length s" "m' \<in> set (ends (Star r) s x)"
    by (subst (asm) ends.simps(5)) (auto split: if_splits)
  then show ?case
  proof cases
    case 1
    then show ?thesis by (subst ends.simps(5)) simp
  next
    case 2
    have le: "fst x \<le> fst m'" using 2(4) ends_mono by blast
    have 3: "(fst x - a, snd x) \<in> set (ends r t (fst m - a, clear_caps r (snd m)))"
      using "5.IH"(1)[of x] "5.prems" 2 le by simp
    have 4: "(fst m' - a, snd m') \<in> set (ends (Star r) t (fst x - a, snd x))"
      using "5.IH"(2)[OF 2(1) _ , of m'] "5.prems" 2 le by simp
    have 5: "fst m - a < fst x - a" "fst x - a \<le> length t"
      using 2(2) le "5.prems"(3,5) by auto
    show ?thesis
      by (subst ends.simps(5)) (use 3 4 5 in force)
  qed
next
  case (6 r s m)
  from "6.prems"(2) consider "m' = m"
    | x where "x \<in> set (ends r s (fst m, clear_caps r (snd m)))" "fst m < fst x"
        "fst x \<le> length s" "m' \<in> set (ends (LazyStar r) s x)"
    by (subst (asm) ends.simps(6)) (auto split: if_splits)
  then show ?case
  proof cases
    case 1
    then show ?thesis by (subst ends.simps(6)) simp
  next
    case 2
    have le: "fst x \<le> fst m'" using 2(4) ends_mono by blast
    have 3: "(fst x - a, snd x) \<in> set (ends r t (fst m - a, clear_caps r (snd m)))"
      using "6.IH"(1)[of x] "6.prems" 2 le by simp
    have 4: "(fst m' - a, snd m') \<in> set (ends (LazyStar r) t (fst x - a, snd x))"
      using "6.IH"(2)[OF 2(1) _ , of m'] "6.prems" 2 le by simp
    have 5: "fst m - a < fst x - a" "fst x - a \<le> length t"
      using 2(2) le "6.prems"(3,5) by auto
    show ?thesis
      by (subst ends.simps(6)) (use 3 4 5 in force)
  qed
next
  case (7 r s m)
  from "7.prems"(2) consider "m' = m"
    | "m' \<in> set (ends r s (fst m, clear_caps r (snd m)))" "fst m < fst m'"
    by auto
  then show ?case
  proof cases
    case 1
    then show ?thesis by simp
  next
    case 2
    have 3: "(fst m' - a, snd m') \<in> set (ends r t (fst m - a, clear_caps r (snd m)))"
      using "7.IH"[of m'] "7.prems" 2 by simp
    have "fst m - a < fst m' - a" using 2(2) "7.prems"(3) by auto
    then show ?thesis using 3 by simp
  qed
qed simp_all

lemma match_all_elems:
  "x \<in> set (match_all r s i) \<Longrightarrow>
     i \<le> fst x \<and> fst x \<le> length s \<and> ends r s (fst x, []) \<noteq> []
     \<and> snd x = hd (ends r s (fst x, []))"
proof (induction r s i rule: match_all.induct)
  case (1 r s i)
  show ?case
  proof (cases "exec_from r s i")
    case None
    then show ?thesis using "1.prems" by (subst (asm) match_all.simps) simp
  next
    case (Some y)
    obtain st m where y: "y = (st, m)" by (cases y)
    note e = exec_from_Some[OF Some[unfolded y]]
    define i' where "i' = (if fst m = st then Suc (fst m) else fst m)"
    have "m \<in> set (ends r s (st, []))" using e by simp
    then have "st \<le> fst m" using ends_mono by fastforce
    then have g: "i < i'" "i \<le> length s" using e by (auto simp: i'_def)
    from "1.prems" have "x = (st, m) \<or> x \<in> set (match_all r s i')"
      using Some y g by (subst (asm) match_all.simps) (simp add: Let_def i'_def)
    then show ?thesis
    proof
      assume "x = (st, m)"
      then show ?thesis using e by simp
    next
      assume "x \<in> set (match_all r s i')"
      then have "i' \<le> fst x \<and> fst x \<le> length s \<and> ends r s (fst x, []) \<noteq> []
     \<and> snd x = hd (ends r s (fst x, []))"
        using "1.IH"[OF Some y[symmetric] i'_def] g by simp
      then show ?thesis using g by simp
    qed
  qed
qed

section \<open>Invariants of an analysis\<close>

lemma plain_lit_i [simp]: "plain (lit_i w)"
  by (induction w) (simp_all add: lit_i_def)

lemma plain_imageUrlRegex: "plain imageUrlRegex"
  by (simp add: imageUrlRegex_def imageExtensions_def one_or_more_def one_or_more_lazy_def)

lemma set_from_set [simp]: "set (from_set xs) = set xs"
  by (induction xs rule: from_set.induct) auto

lemma distinct_from_set: "distinct (from_set xs)"
  by (induction xs rule: from_set.induct) auto

lemma remdups_snoc: "remdups (ys @ [x]) = remdups (filter (\<lambda>y. y \<noteq> x) ys) @ [x]"
  by (induction ys) auto

lemma from_set_first_seen: "from_set xs = rev (remdups (rev xs))"
proof (induction xs rule: from_set.induct)
  case 1
  then show ?case by simp
next
  case (2 x xs)
  have "rev (remdups (rev (x # xs))) = x # rev (remdups (rev (filter (\<lambda>y. y \<noteq> x) xs)))"
    by (simp add: remdups_snoc rev_filter)
  then show ?case using 2 by simp
qed

lemma matched_full_match:
  assumes "plain r" and "u \<in> set (js_match_g r s)"
  shows "full_match r u"
proof -
  from assms(2) obtain x where x: "x \<in> set (match_all r s 0)" "u = matched s x"
    by (auto simp: js_match_g_def)
  obtain st m where xm: "x = (st, m)" by (cases x)
  from match_all_elems[OF x(1)] xm
  have e: "st \<le> length s" "ends r s (st, []) \<noteq> []" "m = hd (ends r s (st, []))" by auto
  then have m: "m \<in> set (ends r s (st, []))" by simp
  have le: "st \<le> fst m" using ends_mono[OF m] by simp
  have b: "fst m \<le> length s" using ends_bound[OF m] e by simp
  have u: "u = take (fst m - st) (drop st s)" using x xm by (simp add: matched_def slice_def)
  have len: "length u = fst m - st" using b le by (simp add: u)
  have "(fst m - st, snd m) \<in> set (ends r u (fst (st, []::captures) - st, snd (st, []::captures)))"
  proof (rule ends_window[OF assms(1) m])
    show "st \<le> fst (st, []::captures)" by simp
    show "fst m \<le> length s" by (rule b)
    show "fst m - st \<le> length u" using len by simp
    show "\<forall>k. fst (st, []::captures) \<le> k \<and> k < fst m \<longrightarrow> u ! (k - st) = s ! k"
      using b by (auto simp: u)
  qed
  then have "(length u, snd m) \<in> set (ends r u (0, []))" using len by simp
  then show ?thesis unfolding full_match_def by force
qed

text \<open>
  Claim C4. In every analysis the image URLs are pairwise different, in the order of their
  first occurrence among the matches, and each of them is, as a whole string, a match of
  the image-URL pattern; every description is non-empty, trimmed, and has a character
  that is not white space.
\<close>

theorem analysis_invariants:
  "distinct (imageUrls (analyze text))
   \<and> imageUrls (analyze text) = rev (remdups (rev (js_match_g imageUrlRegex text)))
   \<and> (\<forall>u\<in>set (imageUrls (analyze text)). full_match imageUrlRegex u)
   \<and> (\<forall>d\<in>set (descriptions (analyze text)).
         d \<noteq> [] \<and> trim d = d \<and> (\<exists>c\<in>set d. \<not> is_space c))"
proof (intro conjI ballI)
  show "distinct (imageUrls (analyze text))"
    by (simp add: analyze_def distinct_from_set)
  show "imageUrls (analyze text) = rev (remdups (rev (js_match_g imageUrlRegex text)))"
    by (simp add: analyze_def from_set_first_seen)
  show "full_match imageUrlRegex u" if "u \<in> set (imageUrls (analyze text))" for u
    using that by (auto simp: analyze_def intro: matched_full_match[OF plain_imageUrlRegex])
next
  fix d assume "d \<in> set (descriptions (analyze text))"
  then obtain p where d: "d = trim p" "d \<noteq> []" by (auto simp: analyze_def)
  show "d \<noteq> []" by (rule d(2))
  show "trim d = d" by (simp add: d(1))
  show "\<exists>c\<in>set d. \<not> is_space c" using d trim_no_space_only[of p] by simp
qed

lemma url_twice_urls: "js_match_g imageUrlRegex (js ''b http://a.png http://a.png'') = [js ''http://a.png'', js ''http://a.png'']"
  by (simp add: js_match_g_def matched_def imageUrlRegex_def imageExtensions_def js_def re_defs cls_defs loop_simps)

lemma url_twice_d1: "js_remove_g imageUrlRegex (js ''b http://a.png http://a.png'') = js ''b  ''"
  by (simp add: js_remove_g_def imageUrlRegex_def imageExtensions_def js_def re_defs cls_defs loop_simps)

lemma url_twice_d2: "js_replace flagTailRegex (js ''b  '') [] = js ''b  ''"
  by (simp add: js_replace_def flagTailRegex_def js_def re_defs cls_defs loop_simps)

lemma url_twice_d3: "js_remove_g mentionRegex (js ''b  '') = js ''b  ''"
  by (simp add: js_remove_g_def mentionRegex_def js_def re_defs cls_defs loop_simps)

lemma url_twice_d4: "js_remove_g ratioRegex (js ''b  '') = js ''b  ''"
  by (simp add: js_remove_g_def ratioRegex_def js_def re_defs cls_defs loop_simps)

lemma url_twice_d5: "js_remove_g numberRegex (js ''b  '') = js ''b  ''"
  by (simp add: js_remove_g_def numberRegex_def js_def re_defs cls_defs loop_simps)

lemma url_twice_d6: "js_remove_g parenRegex (js ''b  '') = js ''b  ''"
  by (simp add: js_remove_g_def parenRegex_def js_def re_defs cls_defs loop_simps)

lemma url_twice_d7: "trim (js_replace trailingCommaRegex (js ''b  '') []) = js ''b''"
  by (simp add: js_replace_def trailingCommaRegex_def js_def re_defs cls_defs loop_simps trim_def)

lemma url_twice_descriptionText: "descriptionText (js ''b http://a.png http://a.png'') = js ''b''"
  by (simp only: descriptionText_def Let_def url_twice_d1 url_twice_d2 url_twice_d3 url_twice_d4 url_twice_d5 url_twice_d6 url_twice_d7)

theorem analysis_invariants_witness:
  "js ''http://a.png'' \<in> set (imageUrls (analyze (js ''b http://a.png http://a.png'')))
   \<and> imageUrls (analyze (js ''b http://a.png http://a.png'')) = [js ''http://a.png'']
   \<and> full_match imageUrlRegex (js ''http://a.png'')
   \<and> js ''b'' \<in> set (descriptions (analyze (js ''b http://a.png http://a.png'')))
   \<and> trim (js ''b'') = js ''b''"
proof -
  have u: "imageUrls (analyze (js ''b http://a.png http://a.png'')) = [js ''http://a.png'']"
    unfolding analyze_def url_twice_urls by (simp add: js_def)
  have d: "descriptions (analyze (js ''b http://a.png http://a.png'')) = [js ''b'']"
    unfolding analyze_def url_twice_descriptionText by (simp add: js_def trim_def is_space_def)
  show ?thesis
    using analysis_invariants [of "js ''b http://a.png http://a.png''"]
    by (simp add: u d url_twice_urls)
qed

section \<open>What a match of the flag pattern looks like\<close>

lemma ends_one_or_more_Cls:
  "ends (one_or_more (Cls P)) s (i, c) =
     map (\<lambda>j. (j, c)) (rev [Suc i ..< Suc (i + length (takeWhile P (drop i s)))])"
proof (cases "i < length s \<and> P (s ! i)")
  case True
  then have "drop i s = s ! i # drop (Suc i) s" by (simp add: Cons_nth_drop_Suc)
  then have "takeWhile P (drop i s) = s ! i # takeWhile P (drop (Suc i) s)" using True by simp
  then show ?thesis using True
    by (simp add: one_or_more_def ends_Star_Cls del: upt_Suc)
next
  case False
  then have "takeWhile P (drop i s) = []"
    by (cases "i < length s") (auto simp: Cons_nth_drop_Suc[symmetric])
  then show ?thesis using False by (auto simp: one_or_more_def)
qed

lemma mem_one_or_more_Cls:
  "m' \<in> set (ends (one_or_more (Cls P)) s m) \<longleftrightarrow>
     snd m' = snd m \<and> fst m < fst m' \<and> fst m' \<le> fst m + length (takeWhile P (drop (fst m) s))"
proof -
  obtain i c where m: "m = (i, c)" by (cases m)
  show ?thesis unfolding m ends_one_or_more_Cls by (cases m') auto
qed

lemma take_takeWhile_le:
  "n \<le> length (takeWhile P xs) \<Longrightarrow> take n xs = take n (takeWhile P xs)"
  by (metis takeWhile_dropWhile_id take_append diff_is_0_eq take_0 append_Nil2)

lemma slice_run:
  assumes "i < j" and "j \<le> i + length (takeWhile P (drop i s))"
  shows "slice s i j \<noteq> []" and "\<forall>c\<in>set (slice s i j). P c" and "j \<le> length s"
proof -
  let ?tw = "takeWhile P (drop i s)"
  have n: "0 < j - i" "j - i \<le> length ?tw" using assms by auto
  have "length ?tw \<le> length (drop i s)" by (rule length_takeWhile_le)
  then show "j \<le> length s" using assms by simp
  have eq: "slice s i j = take (j - i) ?tw"
    unfolding slice_def using n(2) by (rule take_takeWhile_le)
  have "?tw \<noteq> []" using n by auto
  then show "slice s i j \<noteq> []" using n by (simp add: eq)
  show "\<forall>c\<in>set (slice s i j). P c"
    unfolding eq by (meson in_set_takeD set_takeWhileD)
qed

lemma slice_append: "i \<le> k \<Longrightarrow> k \<le> j \<Longrightarrow> slice s i k @ slice s k j = slice s i j"
proof -
  assume a: "i \<le> k" "k \<le> j"
  have "take (j - i) (drop i s) = take ((k - i) + (j - k)) (drop i s)" using a by simp
  also have "\<dots> = take (k - i) (drop i s) @ take (j - k) (drop (k - i) (drop i s))"
    by (rule take_add)
  also have "drop (k - i) (drop i s) = drop k s" using a by simp
  finally show ?thesis by (simp add: slice_def)
qed

lemma slice_same [simp]: "slice s i i = []"
  by (simp add: slice_def)

lemma starts_with_slice:
  "starts_with (drop i s) w \<Longrightarrow> slice s i (i + length w) = w"
  by (auto simp: starts_with_iff slice_def)

lemma mem_Seq:
  "m' \<in> set (ends (Seq a b) s m) \<longleftrightarrow> (\<exists>x. x \<in> set (ends a s m) \<and> m' \<in> set (ends b s x))"
  by auto

lemma mem_Opt:
  "m' \<in> set (ends (Opt r) s m) \<longleftrightarrow>
     m' = m \<or> (m' \<in> set (ends r s (fst m, clear_caps r (snd m))) \<and> fst m < fst m')"
  by auto

lemma mem_Group:
  "m' \<in> set (ends (Group n r) s m) \<longleftrightarrow>
     (\<exists>x. x \<in> set (ends r s m) \<and> m' = (fst x, set_cap n (slice s (fst m) (fst x)) (snd x)))"
  by force

lemma paramRegex_result:
  assumes "m \<in> set (ends paramRegex s (st, []))"
  shows "\<exists>name seps v.
           name \<noteq> [] \<and> (\<forall>c\<in>set name. is_alnum c) \<and> (\<forall>c\<in>set seps. colon_or_space c)
           \<and> (\<forall>c\<in>set v. non_space c) \<and> (seps = [] \<longleftrightarrow> v = [])
           \<and> slice s st (fst m) = js ''--'' @ name @ seps @ v
           \<and> map_of (snd m) 1 = Some name
           \<and> map_of (snd m) 2 = (if v = [] then None else Some v)"
proof -
  define grp where "grp = Seq (one_or_more (Cls colon_or_space)) (Group 2 (one_or_more (Cls non_space)))"
  define rest where "rest = Seq (Group 1 (one_or_more (Cls is_alnum))) (Opt grp)"
  have pr: "paramRegex = Seq (lit (js ''--'')) rest"
    by (simp add: paramRegex_def rest_def grp_def)
  have l2: "length (js ''--'') = 2" by (simp add: js_def)
  from assms have sw: "starts_with (drop st s) (js ''--'')"
    and m: "m \<in> set (ends rest s (st + 2, []))"
    unfolding pr ends_Seq_lit by (auto simp: l2 split: if_splits)
  from m obtain x where x: "x \<in> set (ends (Group 1 (one_or_more (Cls is_alnum))) s (st + 2, []))"
    and mx: "m \<in> set (ends (Opt grp) s x)"
    unfolding rest_def mem_Seq by blast
  from x obtain k where k: "st + 2 < k" "k \<le> st + 2 + length (takeWhile is_alnum (drop (st + 2) s))"
    and xk: "x = (k, [(1, slice s (st + 2) k)])"
    unfolding mem_Group mem_one_or_more_Cls by (auto simp: set_cap_def)
  define name where "name = slice s (st + 2) k"
  note nm = slice_run[OF k, folded name_def]
  have dd: "slice s st (st + 2) = js ''--''" using starts_with_slice[OF sw] by (simp add: l2)
  have cc: "clear_caps grp [(Suc 0, name)] = [(Suc 0, name)]"
    by (simp add: clear_caps_def grp_def one_or_more_def)
  from mx consider "m = x"
    | "m \<in> set (ends grp s (k, [(1, name)]))"
    unfolding xk name_def[symmetric] mem_Opt by (auto simp: cc)
  then show ?thesis
  proof cases
    case 1
    have "slice s st (fst m) = js ''--'' @ name"
      using 1 xk k dd slice_append[of st "st + 2" k s] by (simp add: name_def)
    then show ?thesis using 1 xk nm by (intro exI[of _ name] exI[of _ "[]"]) (simp add: name_def)
  next
    case 2
    then obtain y where y: "y \<in> set (ends (one_or_more (Cls colon_or_space)) s (k, [(1, name)]))"
      and my: "m \<in> set (ends (Group 2 (one_or_more (Cls non_space))) s y)"
      unfolding grp_def mem_Seq by blast
    from y obtain a where a: "k < a" "a \<le> k + length (takeWhile colon_or_space (drop k s))"
      and ya: "y = (a, [(1, name)])"
      unfolding mem_one_or_more_Cls by (cases y) auto
    from my obtain j where j: "a < j" "j \<le> a + length (takeWhile non_space (drop a s))"
      and mj: "m = (j, [(2, slice s a j), (1, name)])"
      unfolding ya mem_Group mem_one_or_more_Cls by (auto simp: set_cap_def)
    note sp = slice_run[OF a]
    note vl = slice_run[OF j]
    have "slice s st j = slice s st (st + 2) @ slice s (st + 2) k @ slice s k a @ slice s a j"
      using k a j by (simp add: slice_append)
    then have "slice s st (fst m) = js ''--'' @ name @ slice s k a @ slice s a j"
      using dd by (simp add: mj name_def)
    then show ?thesis using mj nm sp vl
      by (intro exI[of _ name] exI[of _ "slice s k a"] exI[of _ "slice s a j"]) simp
  qed
qed

lemma match_all_ordered:
  "sorted_wrt (\<lambda>x y. fst x < fst y \<and> fst (snd x) \<le> fst y) (match_all r s i)"
proof (induction r s i rule: match_all.induct)
  case (1 r s i)
  show ?case
  proof (cases "exec_from r s i")
    case None
    then show ?thesis by (subst match_all.simps) simp
  next
    case (Some y)
    obtain st m where y: "y = (st, m)" by (cases y)
    note e = exec_from_Some[OF Some[unfolded y]]
    define i' where "i' = (if fst m = st then Suc (fst m) else fst m)"
    have "m \<in> set (ends r s (st, []))" using e by simp
    then have sm: "st \<le> fst m" using ends_mono by fastforce
    then have g: "i < i'" "i \<le> length s" using e by (auto simp: i'_def)
    have eq: "match_all r s i = (st, m) # match_all r s i'"
      using Some y g by (subst match_all.simps) (simp add: Let_def i'_def)
    have ih: "sorted_wrt (\<lambda>x y. fst x < fst y \<and> fst (snd x) \<le> fst y) (match_all r s i')"
      using "1.IH"[OF Some y[symmetric] i'_def] g by simp
    have "\<forall>z\<in>set (match_all r s i'). st < fst z \<and> fst m \<le> fst z"
    proof
      fix z assume "z \<in> set (match_all r s i')"
      then have "i' \<le> fst z" using match_all_elems by blast
      then show "st < fst z \<and> fst m \<le> fst z" using sm by (auto simp: i'_def split: if_splits)
    qed
    then show ?thesis unfolding eq using ih by simp
  qed
qed

lemma duplicate_flags:
  "match_all paramRegex (js ''--ar 1:1 --ar 2:1'') 0 =
     [(0, 8, [(2, js ''1:1''), (1, js ''ar'')]), (9, 17, [(2, js ''2:1''), (1, js ''ar'')])]"
  by (simp add: paramRegex_def js_def re_defs cls_defs loop_simps)

lemma to_parameter_of_match:
  assumes "x \<in> set (match_all paramRegex text 0)"
  shows "param_enabled (to_parameter x)"
    and "param_name (to_parameter x) \<noteq> []"
    and "\<forall>c\<in>set (param_name (to_parameter x)). is_alnum c"
    and "\<forall>c\<in>set (param_value (to_parameter x)). \<not> is_space c"
    and "\<exists>seps. (\<forall>c\<in>set seps. colon_or_space c)
           \<and> (seps = [] \<longleftrightarrow> param_value (to_parameter x) = [])
           \<and> matched text x =
               js ''--'' @ param_name (to_parameter x) @ seps @ param_value (to_parameter x)"
proof -
  obtain st m where x: "x = (st, m)" by (cases x)
  from match_all_elems[OF assms] x have "m \<in> set (ends paramRegex text (st, []))" by auto
  from paramRegex_result[OF this] obtain name seps v where r:
    "name \<noteq> []" "\<forall>c\<in>set name. is_alnum c" "\<forall>c\<in>set seps. colon_or_space c"
    "\<forall>c\<in>set v. non_space c" "seps = [] \<longleftrightarrow> v = []"
    "slice text st (fst m) = js ''--'' @ name @ seps @ v"
    "map_of (snd m) 1 = Some name" "map_of (snd m) 2 = (if v = [] then None else Some v)"
    by blast
  have n: "param_name (to_parameter x) = name"
    using r(7) by (simp add: to_parameter_def capture_def x)
  have v: "param_value (to_parameter x) = v"
    using r(8) by (simp add: to_parameter_def capture_def x)
  show "param_enabled (to_parameter x)" by (simp add: to_parameter_def)
  show "param_name (to_parameter x) \<noteq> []" using r(1) n by simp
  show "\<forall>c\<in>set (param_name (to_parameter x)). is_alnum c" using r(2) n by simp
  show "\<forall>c\<in>set (param_value (to_parameter x)). \<not> is_space c"
    using r(4) v by (simp add: non_space_def)
  show "\<exists>seps. (\<forall>c\<in>set seps. colon_or_space c)
           \<and> (seps = [] \<longleftrightarrow> param_value (to_parameter x) = [])
           \<and> matched text x =
               js ''--'' @ param_name (to_parameter x) @ seps @ param_value (to_parameter x)"
    using r(3,5,6) n v by (intro exI[of _ seps]) (simp add: matched_def x)
qed

text \<open>
  Claim C3. The parameters of an analysis are the matches of the flag pattern over the
  original text, one entry per match and in the order of the matches, which start at
  increasing positions and do not overlap. Every entry is enabled; its name is a non-empty
  run of \<open>[a-zA-Z0-9]\<close>; its value has no white space; and the matched text is \<open>--\<close>,
  the name, and then either nothing, with the empty value, or a non-empty run of colons
  and white space followed by the non-empty value. Two flags of the same name give two
  entries.
\<close>

theorem parameters_follow_matches:
  "parameters (analyze text) = map to_parameter (match_all paramRegex text 0)
   \<and> sorted_wrt (\<lambda>x y. fst x < fst y \<and> fst (snd x) \<le> fst y) (match_all paramRegex text 0)
   \<and> (\<forall>x\<in>set (match_all paramRegex text 0).
         param_enabled (to_parameter x)
       \<and> param_name (to_parameter x) \<noteq> []
       \<and> (\<forall>c\<in>set (param_name (to_parameter x)). is_alnum c)
       \<and> (\<forall>c\<in>set (param_value (to_parameter x)). \<not> is_space c)
       \<and> (\<exists>seps. (\<forall>c\<in>set seps. colon_or_space c)
             \<and> (seps = [] \<longleftrightarrow> param_value (to_parameter x) = [])
             \<and> matched text x =
                 js ''--'' @ param_name (to_parameter x) @ seps @ param_value (to_parameter x)))
   \<and> parameters (analyze (js ''--ar 1:1 --ar 2:1'')) =
       [\<lparr>param_name = js ''ar'', param_value = js ''1:1'', param_enabled = True\<rparr>,
        \<lparr>param_name = js ''ar'', param_value = js ''2:1'', param_enabled = True\<rparr>]"
proof (intro conjI ballI)
  show "parameters (analyze text) = map to_parameter (match_all paramRegex text 0)"
    by (simp add: analyze_def)
  show "sorted_wrt (\<lambda>x y. fst x < fst y \<and> fst (snd x) \<le> fst y) (match_all paramRegex text 0)"
    by (rule match_all_ordered)
  show "parameters (analyze (js ''--ar 1:1 --ar 2:1'')) =
       [\<lparr>param_name = js ''ar'', param_value = js ''1:1'', param_enabled = True\<rparr>,
        \<lparr>param_name = js ''ar'', param_value = js ''2:1'', param_enabled = True\<rparr>]"
    by (simp add: analyze_def duplicate_flags to_parameter_def capture_def)
qed (use to_parameter_of_match in blast)+

theorem parameters_follow_matches_witness:
  "(9, 17, [(2, js ''2:1''), (1, js ''ar'')]) \<in> set (match_all paramRegex (js ''--ar 1:1 --ar 2:1'') 0)
   \<and> param_name (to_parameter (9, 17, [(2, js ''2:1''), (1, js ''ar'')])) = js ''ar''
   \<and> param_value (to_parameter (9, 17, [(2, js ''2:1''), (1, js ''ar'')])) = js ''2:1''
   \<and> param_enabled (to_parameter (9, 17, [(2, js ''2:1''), (1, js ''ar'')]))
   \<and> length (parameters (analyze (js ''--ar 1:1 --ar 2:1''))) = 2"
  using parameters_follow_matches [of "js ''--ar 1:1 --ar 2:1''"]
  by (simp add: duplicate_flags to_parameter_def capture_def)

section \<open>The update when the flag does not occur\<close>

lemma alnum_not_syntax: "is_alnum c \<Longrightarrow> \<not> syntax_character c"
  by (auto simp: is_alnum_def syntax_character_def)

lemma analysed_names_literal:
  "p \<in> set (parameters (analyze text)) \<Longrightarrow> literal_name (param_name p)"
proof -
  assume "p \<in> set (parameters (analyze text))"
  then obtain x where x: "x \<in> set (match_all paramRegex text 0)" and p: "p = to_parameter x"
    by (auto simp: analyze_def)
  from to_parameter_of_match(3)[OF x] show ?thesis
    unfolding p literal_name_def list_all_iff using alnum_not_syntax by blast
qed

text \<open>
  Claim C10. For a name without pattern syntax characters \<open>new RegExp\<close> builds the
  pattern of the literal name, and every name that an analysis holds, which is what the
  handler is called with, is such a name. The pattern matches nowhere in the prompt exactly
  when \<open>--name\<close> does not occur in it, and then the new prompt is the old one trimmed:
  nothing is inserted and nothing fails. With an analysis in the state, that is the prompt
  the handler stores.
\<close>

theorem update_without_occurrence:
  "(literal_name paramName \<longrightarrow> (\<exists>re. updateParamRegex paramName = Some re))
   \<and> (updateParamRegex paramName = Some re \<longrightarrow>
        (exec_from re prompt0 0 = None \<longleftrightarrow> \<not> js_includes prompt0 (js ''--'' @ paramName))
      \<and> (exec_from re prompt0 0 = None \<longrightarrow>
            update prompt0 paramName newValue = Some (trim prompt0)
          \<and> (analysis st \<noteq> None \<and> prompt st = prompt0 \<longrightarrow>
                map_option prompt (updateParameter translate st paramName newValue) =
                  Some (trim prompt0))))
   \<and> (\<forall>p\<in>set (parameters (analyze text)). literal_name (param_name p))"
proof (intro conjI impI ballI)
  show "\<exists>re. updateParamRegex paramName = Some re" if "literal_name paramName"
    using that by (simp add: updateParamRegex_def)
next
  assume r: "updateParamRegex paramName = Some re"
  then have l: "literal_name paramName" and re: "re = literalParamRegex paramName"
    by (simp_all add: updateParamRegex_def split: if_splits)
  show "exec_from re prompt0 0 = None \<longleftrightarrow> \<not> js_includes prompt0 (js ''--'' @ paramName)"
    unfolding re by (rule exec_from_literalParamRegex)
  assume n: "exec_from re prompt0 0 = None"
  show u: "update prompt0 paramName newValue = Some (trim prompt0)"
    using l n unfolding re by (rule update_no_match)
  assume "analysis st \<noteq> None \<and> prompt st = prompt0"
  then show "map_option prompt (updateParameter translate st paramName newValue) =
               Some (trim prompt0)"
    using u by (simp add: prompt_updateParameter)
next
  fix p assume "p \<in> set (parameters (analyze text))"
  then show "literal_name (param_name p)" by (rule analysed_names_literal)
qed

theorem update_without_occurrence_witness:
  "literal_name (js ''chaos'')
   \<and> updateParamRegex (js ''chaos'') = Some (literalParamRegex (js ''chaos''))
   \<and> exec_from (literalParamRegex (js ''chaos'')) (js '' a cat --ar 16:9 '') 0 = None
   \<and> update (js '' a cat --ar 16:9 '') (js ''chaos'') (js ''50'') = Some (js ''a cat --ar 16:9'')
   \<and> \<lparr>param_name = js ''ar'', param_value = js ''2:1'', param_enabled = True\<rparr>
       \<in> set (parameters (analyze (js ''--ar 1:1 --ar 2:1'')))
   \<and> literal_name (js ''ar'')"
proof -
  have r: "updateParamRegex (js ''chaos'') = Some (literalParamRegex (js ''chaos''))"
    by (simp add: updateParamRegex_def literal_name_chaos)
  have n: "\<not> js_includes (js '' a cat --ar 16:9 '') (js ''--'' @ js ''chaos'')"
    by (simp add: js_def)
  have t: "trim (js '' a cat --ar 16:9 '') = js ''a cat --ar 16:9''"
    by (simp add: js_def trim_def is_space_def)
  have a: "parameters (analyze (js ''--ar 1:1 --ar 2:1'')) =
       [\<lparr>param_name = js ''ar'', param_value = js ''1:1'', param_enabled = True\<rparr>,
        \<lparr>param_name = js ''ar'', param_value = js ''2:1'', param_enabled = True\<rparr>]"
    by (simp add: analyze_def duplicate_flags to_parameter_def capture_def)
  show ?thesis
    using update_without_occurrence [of "js ''chaos''" "literalParamRegex (js ''chaos'')"
            "js '' a cat --ar 16:9 ''" "js ''50''" _ _ "js ''--ar 1:1 --ar 2:1''"]
    by (simp add: r n t a literal_name_chaos)
qed

section \<open>Shifting a text to the right\<close>

lemma slice_shift: "slice (A @ w) (length A + i) (length A + j) = slice w i j"
  by (simp add: slice_def)

lemma ends_shift:
  "no_lookbehind r \<Longrightarrow>
     ends r (A @ w) (length A + fst m, snd m) =
       map (\<lambda>x. (length A + fst x, snd x)) (ends r w m)"
proof (induction r w m rule: ends.induct)
  case (1 s m)
  then show ?case by simp
next
  case (2 P s m)
  then show ?case by (simp add: nth_append)
next
  case (3 a b s m)
  have 1: "ends a (A @ s) (length A + fst m, snd m) =
             map (\<lambda>x. (length A + fst x, snd x)) (ends a s m)"
    using 3 by simp
  have 2: "ends b (A @ s) (length A + fst x, snd x) =
             map (\<lambda>y. (length A + fst y, snd y)) (ends b s x)"
    if "x \<in> set (ends a s m)" for x
    using 3 that by simp
  have "ends (Seq a b) (A @ s) (length A + fst m, snd m) =
          concat (map (\<lambda>x. ends b (A @ s) (length A + fst x, snd x)) (ends a s m))"
    by (simp add: 1 comp_def)
  also have "\<dots> = concat (map (\<lambda>x. map (\<lambda>y. (length A + fst y, snd y)) (ends b s x)) (ends a s m))"
    using 2 by (simp cong: map_cong)
  also have "\<dots> = map (\<lambda>y. (length A + fst y, snd y)) (ends (Seq a b) s m)"
    by (simp add: map_concat comp_def)
  finally show ?case .
next
  case (4 a b s m)
  then show ?case by simp
next
  case (5 r s m)
  let ?sh = "\<lambda>y. (length A + fst y, snd y)"
  let ?inner = "ends r s (fst m, clear_caps r (snd m))"
  have 1: "ends r (A @ s) (length A + fst m, clear_caps r (snd m)) = map ?sh ?inner"
    using "5.IH"(1) "5.prems" by simp
  have 2: "ends (Star r) (A @ s) (length A + fst x, snd x) = map ?sh (ends (Star r) s x)"
    if "x \<in> set ?inner" "fst m < fst x" "fst x \<le> length s" for x
    using "5.IH"(2)[OF that(1)] that "5.prems" by simp
  have "ends (Star r) (A @ s) (length A + fst m, snd m) =
          concat (map (\<lambda>x. if fst m < fst x \<and> fst x \<le> length s
                             then ends (Star r) (A @ s) (length A + fst x, snd x) else [])
                      ?inner) @ [?sh m]"
    by (subst ends.simps(5)) (simp add: 1 comp_def)
  also have "\<dots> = concat (map (\<lambda>x. map ?sh (if fst m < fst x \<and> fst x \<le> length s
                             then ends (Star r) s x else []))
                      ?inner) @ [?sh m]"
  proof -
    have "map (\<lambda>x. if fst m < fst x \<and> fst x \<le> length s
                   then ends (Star r) (A @ s) (length A + fst x, snd x) else []) ?inner =
          map (\<lambda>x. map ?sh (if fst m < fst x \<and> fst x \<le> length s
                   then ends (Star r) s x else [])) ?inner"
    proof (rule map_cong[OF refl])
      fix x assume "x \<in> set ?inner"
      then show "(if fst m < fst x \<and> fst x \<le> length s
                   then ends (Star r) (A @ s) (length A + fst x, snd x) else []) =
                 map ?sh (if fst m < fst x \<and> fst x \<le> length s
                   then ends (Star r) s x else [])"
        using 2[of x] by simp
    qed
    then show ?thesis by (simp only:)
  qed
  also have "\<dots> = map ?sh (ends (Star r) s m)"
    by (subst (2) ends.simps(5)) (simp add: map_concat comp_def)
  finally show ?case .
next
  case (6 r s m)
  let ?sh = "\<lambda>y. (length A + fst y, snd y)"
  let ?inner = "ends r s (fst m, clear_caps r (snd m))"
  have 1: "ends r (A @ s) (length A + fst m, clear_caps r (snd m)) = map ?sh ?inner"
    using "6.IH"(1) "6.prems" by simp
  have 2: "ends (LazyStar r) (A @ s) (length A + fst x, snd x) = map ?sh (ends (LazyStar r) s x)"
    if "x \<in> set ?inner" "fst m < fst x" "fst x \<le> length s" for x
    using "6.IH"(2)[OF that(1)] that "6.prems" by simp
  have "ends (LazyStar r) (A @ s) (length A + fst m, snd m) =
          ?sh m # concat (map (\<lambda>x. if fst m < fst x \<and> fst x \<le> length s
                             then ends (LazyStar r) (A @ s) (length A + fst x, snd x) else [])
                      ?inner)"
    by (subst ends.simps(6)) (simp add: 1 comp_def)
  also have "\<dots> = ?sh m # concat (map (\<lambda>x. map ?sh (if fst m < fst x \<and> fst x \<le> length s
                             then ends (LazyStar r) s x else []))
                      ?inner)"
  proof -
    have "map (\<lambda>x. if fst m < fst x \<and> fst x \<le> length s
                   then ends (LazyStar r) (A @ s) (length A + fst x, snd x) else []) ?inner =
          map (\<lambda>x. map ?sh (if fst m < fst x \<and> fst x \<le> length s
                   then ends (LazyStar r) s x else [])) ?inner"
    proof (rule map_cong[OF refl])
      fix x assume "x \<in> set ?inner"
      then show "(if fst m < fst x \<and> fst x \<le> length s
                   then ends (LazyStar r) (A @ s) (length A + fst x, snd x) else []) =
                 map ?sh (if fst m < fst x \<and> fst x \<le> length s
                   then ends (LazyStar r) s x else [])"
        using 2[of x] by simp
    qed
    then show ?thesis by (simp only:)
  qed
  also have "\<dots> = map ?sh (ends (LazyStar r) s m)"
    by (subst (2) ends.simps(6)) (simp add: map_concat comp_def)
  finally show ?case .
next
  case (7 r s m)
  then show ?case by (simp add: filter_map comp_def)
next
  case (8 n r s m)
  then show ?case by (simp add: slice_shift comp_def)
next
  case (9 s m)
  then show ?case by simp
next
  case (10 s m)
  then show ?case by simp
next
  case (11 P s m)
  then show ?case by simp
qed

section \<open>Adding and updating a flag on a prompt without flags\<close>

lemma starts_with_dashes:
  "starts_with (drop i s) (js ''--'') \<longleftrightarrow> i + 1 < length s \<and> s ! i = 45 \<and> s ! (i + 1) = 45"
  by (auto simp: js_def starts_with_drop_Cons)

lemma flag_at_nth:
  "flag_at s i \<longleftrightarrow>
     i + 2 < length s \<and> s ! i = 45 \<and> s ! (i + 1) = 45 \<and> is_alnum (s ! (i + 2))"
  by (auto simp: flag_at_def starts_with_dashes)

lemma ends_paramRegex_empty: "ends paramRegex s (i, c) = [] \<longleftrightarrow> \<not> flag_at s i"
proof -
  define grp where "grp = Seq (one_or_more (Cls colon_or_space)) (Group 2 (one_or_more (Cls non_space)))"
  define g1 where "g1 = Group 1 (one_or_more (Cls is_alnum))"
  have pr: "paramRegex = Seq (lit (js ''--'')) (Seq g1 (Opt grp))"
    by (simp add: paramRegex_def g1_def grp_def)
  have l2: "length (js ''--'') = 2" by (simp add: js_def)
  have opt: "ends (Opt grp) s x \<noteq> []" for x by simp
  have "ends (Seq g1 (Opt grp)) s (i + 2, c) = [] \<longleftrightarrow> ends g1 s (i + 2, c) = []"
    using opt by (cases "ends g1 s (i + 2, c)") auto
  also have "\<dots> \<longleftrightarrow> takeWhile is_alnum (drop (i + 2) s) = []"
    by (simp add: g1_def ends_one_or_more_Cls del: upt_Suc)
  also have "\<dots> \<longleftrightarrow> \<not> (i + 2 < length s \<and> is_alnum (s ! (i + 2)))"
    by (cases "i + 2 < length s") (auto simp: takeWhile_eq_Nil_iff hd_drop_conv_nth)
  finally have rest: "ends (Seq g1 (Opt grp)) s (i + 2, c) = [] \<longleftrightarrow>
      \<not> (i + 2 < length s \<and> is_alnum (s ! (i + 2)))" .
  show ?thesis
    unfolding pr ends_Seq_lit l2 flag_at_def using rest by auto
qed

lemma no_flag_iff: "parameters (analyze s) = [] \<longleftrightarrow> (\<forall>i. \<not> flag_at s i)"
proof -
  have "parameters (analyze s) = [] \<longleftrightarrow> match_all paramRegex s 0 = []"
    by (simp add: analyze_def)
  also have "\<dots> \<longleftrightarrow> exec_from paramRegex s 0 = None"
    by (subst match_all_unguarded) (auto split: option.splits)
  also have "\<dots> \<longleftrightarrow> (\<forall>k\<le>length s. \<not> flag_at s k)"
    by (simp add: exec_from_None ends_paramRegex_empty)
  also have "\<dots> \<longleftrightarrow> (\<forall>i. \<not> flag_at s i)"
    by (auto simp: flag_at_nth)
  finally show ?thesis .
qed

lemma no_flag_dropWhile:
  assumes "\<forall>i. \<not> flag_at s i"
  shows "\<not> flag_at (dropWhile P s) i"
proof
  assume f: "flag_at (dropWhile P s) i"
  define d where "d = length (takeWhile P s)"
  have dw: "dropWhile P s = drop d s" by (simp add: d_def dropWhile_eq_drop)
  have "d \<le> length s" by (simp add: d_def length_takeWhile_le)
  then have "flag_at s (d + i)" using f unfolding dw flag_at_nth
    by (auto simp: add.assoc)
  then show False using assms by blast
qed

lemma no_flag_extend:
  assumes "\<forall>i. \<not> flag_at A i" and "k \<le> length A"
  shows "\<not> flag_at (A @ 32 # 45 # 45 # rest) k"
proof
  assume f: "flag_at (A @ 32 # 45 # 45 # rest) k"
  show False
  proof (cases "k + 2 < length A")
    case True
    then have "flag_at A k" using f unfolding flag_at_nth by (auto simp: nth_append)
    then show False using assms by blast
  next
    case False
    then consider "k + 2 = length A" | "k + 1 = length A" | "k = length A" using assms(2) by linarith
    then show False
    proof cases
      case 1
      then show ?thesis using f unfolding flag_at_nth by (simp add: nth_append is_alnum_def)
    next
      case 2
      then have "k < length A" "\<not> k + 2 < length A" "k + 2 - length A = 1" by auto
      then show ?thesis using f unfolding flag_at_nth by (simp add: nth_append is_alnum_def)
    next
      case 3
      then show ?thesis using f unfolding flag_at_nth by (simp add: nth_append)
    qed
  qed
qed

lemma exec_from_first:
  assumes "\<forall>k. i \<le> k \<and> k < st \<longrightarrow> ends r s (k, []) = []"
    and "ends r s (st, []) = m # ms" and "i \<le> st" and "st \<le> length s"
  shows "exec_from r s i = Some (st, m)"
  using assms
proof (induction "st - i" arbitrary: i)
  case 0
  then have "i = st" by simp
  then show ?case using 0 by (subst exec_from.simps) simp
next
  case (Suc n)
  then have lt: "i < st" by simp
  then have e: "ends r s (i, []) = []" using Suc.prems by simp
  have "exec_from r s (Suc i) = Some (st, m)"
    using Suc.hyps(1)[of "Suc i"] Suc.hyps(2) Suc.prems lt by simp
  then show ?case using e lt Suc.prems by (subst exec_from.simps) simp
qed

lemma no_lookbehind_lit [simp]: "no_lookbehind (lit w)"
  by (induction w) (simp_all add: lit_def)

lemma no_lookbehind_paramRegex: "no_lookbehind paramRegex"
  by (simp add: paramRegex_def one_or_more_def)

lemma no_lookbehind_literalParamRegex: "no_lookbehind (literalParamRegex name)"
  by (simp add: literalParamRegex_def one_or_more_def)

lemma chaos_flag_at:
  "starts_with (drop k s) (js ''--'' @ js ''chaos'') \<Longrightarrow> flag_at s k"
  by (auto simp: js_def starts_with_drop_Cons flag_at_nth is_alnum_def)

lemma update_pattern_on_chaos_0:
  "ends (literalParamRegex (js ''chaos'')) (js '' --chaos 0'') (1, []) = [(10, []), (9, []), (8, [])]"
  by (simp add: literalParamRegex_def js_def re_defs cls_defs loop_simps)

lemma flag_pattern_on_chaos_50:
  "ends paramRegex (js '' --chaos 50'') (1, []) =
     [(11, [(2, js ''50''), (1, js ''chaos'')]), (10, [(2, js ''5''), (1, js ''chaos'')]),
      (8, [(1, js ''chaos'')]), (7, [(1, js ''chao'')]), (6, [(1, js ''cha'')]),
      (5, [(1, js ''ch'')]), (4, [(1, js ''c'')])]"
  by (simp add: paramRegex_def js_def re_defs cls_defs loop_simps)

lemma trim_append_flag:
  assumes "w \<noteq> []" and "\<not> is_space (last w)"
  shows "trim (p @ w) = (if trim p = [] then dropWhile is_space w else dropWhile is_space p @ w)"
proof (cases "trim p = []")
  case True
  then have "\<forall>c\<in>set p. is_space c" by (simp add: trim_eq_Nil_iff)
  then have "dropWhile is_space (p @ w) = dropWhile is_space w"
    by (simp add: dropWhile_append2)
  then show ?thesis using True by (simp add: trim_append_word[OF assms])
next
  case False
  then obtain c where "c \<in> set p" "\<not> is_space c" by (auto simp: trim_eq_Nil_iff)
  then have "dropWhile is_space (p @ w) = dropWhile is_space p @ w"
    by (rule dropWhile_append1)
  then show ?thesis using False by (simp add: trim_append_word[OF assms])
qed

lemma trim_append_space: "is_space c \<Longrightarrow> trim (s @ [c]) = trim s"
proof (cases "\<forall>x\<in>set s. is_space x")
  case True
  assume "is_space c"
  then have "trim (s @ [c]) = []" using True by (simp add: trim_eq_Nil_iff)
  moreover have "trim s = []" using True by (simp add: trim_eq_Nil_iff)
  ultimately show ?thesis by simp
next
  case False
  assume c: "is_space c"
  from False obtain x where "x \<in> set s" "\<not> is_space x" by auto
  then have "dropWhile is_space (s @ [c]) = dropWhile is_space s @ [c]"
    by (rule dropWhile_append1)
  then show ?thesis using c by (simp add: trim_def)
qed

lemma chaos_info:
  "lookup_info (js ''chaos'') =
     Some \<lparr>info_values = None, info_default = None, info_type = Some Number,
           info_min = Some 0, info_max = Some 100\<rparr>"
  by (simp add: lookup_info_def PARAMETER_INFO_def js_def)

lemma add_chaos: "add prompt0 (js ''chaos'') = Inr (trim (prompt0 @ js '' --chaos 0''))"
  by (simp add: add_def chaos_info default_value_def template_def number_to_string_def)
     (simp add: js_def)

text \<open>The update of the flag that was just appended to a text without flags.\<close>

lemma update_appended_chaos:
  assumes "\<forall>i. \<not> flag_at A i"
  shows "update (A @ js '' --chaos 0'') (js ''chaos'') (js ''50'') =
           Some (trim (A @ js '' --chaos 50''))"
proof -
  let ?s = "A @ js '' --chaos 0''"
  let ?r = "literalParamRegex (js ''chaos'')"
  have s: "?s = A @ 32 # 45 # 45 # js ''chaos 0''" by (simp add: js_def)
  have before: "\<forall>k. 0 \<le> k \<and> k < length A + 1 \<longrightarrow> ends ?r ?s (k, []) = []"
  proof (intro allI impI)
    fix k assume "0 \<le> k \<and> k < length A + 1"
    then have "\<not> flag_at ?s k" unfolding s using no_flag_extend[OF assms] by simp
    then have "\<not> starts_with (drop k ?s) (js ''--'' @ js ''chaos'')" using chaos_flag_at by blast
    then show "ends ?r ?s (k, []) = []" by (simp add: ends_literalParamRegex_empty)
  qed
  have sh: "ends ?r ?s (length A + 1, []) =
              map (\<lambda>x. (length A + fst x, snd x)) (ends ?r (js '' --chaos 0'') (1, []))"
    using ends_shift[OF no_lookbehind_literalParamRegex, of "js ''chaos''" A "js '' --chaos 0''" "(1, [])"]
    by simp
  have at: "ends ?r ?s (length A + 1, []) =
              (length A + 10, []) # [(length A + 9, []), (length A + 8, [])]"
    unfolding sh update_pattern_on_chaos_0 by simp
  have len: "length ?s = length A + 10" by (simp add: js_def)
  have ex: "exec_from ?r ?s 0 = Some (length A + 1, (length A + 10, []))"
    by (rule exec_from_first[OF before at]) (simp_all add: js_def)
  have v: "trim (js ''50'') = js ''50''" by (simp add: js_def trim_def is_space_def)
  have tk: "take (length A + 1) ?s = A @ [32]" by (simp add: js_def)
  have sub: "get_substitution mt s0 pos (js ''--'' @ js ''chaos'' @ js '' '' @ js ''50'' @ js '' '')
               = js ''--chaos 50 ''" for mt s0 pos
    by (simp add: js_def)
  have "update ?s (js ''chaos'') (js ''50'') = Some (trim ((A @ js '' --chaos 50'') @ [32]))"
    unfolding update_chaos Let_def v js_replace_def ex
    by (simp add: template_def sub tk len) (simp add: js_def)
  then show ?thesis by (simp only: trim_append_space[of 32, unfolded is_space_def, simplified])
qed

lemma parameters_appended_chaos:
  assumes "\<forall>i. \<not> flag_at A i"
  shows "parameters (analyze (A @ js '' --chaos 50'')) =
           [\<lparr>param_name = js ''chaos'', param_value = js ''50'', param_enabled = True\<rparr>]"
proof -
  let ?s = "A @ js '' --chaos 50''"
  have s: "?s = A @ 32 # 45 # 45 # js ''chaos 50''" by (simp add: js_def)
  have len: "length ?s = length A + 11" by (simp add: js_def)
  have before: "\<forall>k. 0 \<le> k \<and> k < length A + 1 \<longrightarrow> ends paramRegex ?s (k, []) = []"
  proof (intro allI impI)
    fix k assume "0 \<le> k \<and> k < length A + 1"
    then have "\<not> flag_at ?s k" unfolding s using no_flag_extend[OF assms] by simp
    then show "ends paramRegex ?s (k, []) = []" by (simp add: ends_paramRegex_empty)
  qed
  have sh: "ends paramRegex ?s (length A + 1, []) =
              map (\<lambda>x. (length A + fst x, snd x)) (ends paramRegex (js '' --chaos 50'') (1, []))"
    using ends_shift[OF no_lookbehind_paramRegex, of A "js '' --chaos 50''" "(1, [])"]
    by simp
  have at: "ends paramRegex ?s (length A + 1, []) =
              (length A + 11, [(2, js ''50''), (1, js ''chaos'')]) #
              map (\<lambda>x. (length A + fst x, snd x))
                [(10, [(2, js ''5''), (1, js ''chaos'')]),
                 (8, [(1, js ''chaos'')]), (7, [(1, js ''chao'')]), (6, [(1, js ''cha'')]),
                 (5, [(1, js ''ch'')]), (4, [(1, js ''c'')])]"
    unfolding sh flag_pattern_on_chaos_50 by simp
  have ex: "exec_from paramRegex ?s 0 =
              Some (length A + 1, (length A + 11, [(2, js ''50''), (1, js ''chaos'')]))"
    by (rule exec_from_first[OF before at]) (simp_all add: js_def)
  have after: "exec_from paramRegex ?s (length A + 11) = None"
    unfolding exec_from_None ends_paramRegex_empty flag_at_nth len by auto
  have "match_all paramRegex ?s 0 =
          [(length A + 1, (length A + 11, [(2, js ''50''), (1, js ''chaos'')]))]"
    by (subst match_all_unguarded, simp add: ex, subst match_all_unguarded) (simp add: after)
  then show ?thesis by (simp add: analyze_def to_parameter_def capture_def)
qed

lemma update_chaos_blank:
  "update (js ''--chaos 0'') (js ''chaos'') (js ''50'') = Some (js ''--chaos 50'')"
proof -
  have v: "trim (js ''50'') = js ''50''" by (simp add: js_def trim_def is_space_def)
  have r: "js_replace (literalParamRegex (js ''chaos'')) (js ''--chaos 0'') (js ''--chaos 50 '')
             = js ''--chaos 50 ''"
    by (simp add: js_replace_def literalParamRegex_def js_def re_defs cls_defs loop_simps matched_def)
  have c: "js ''--'' @ js ''chaos'' @ js '' '' @ js ''50'' @ js '' '' = js ''--chaos 50 ''"
    by (simp add: js_def)
  show ?thesis
    unfolding update_chaos Let_def v
    by (simp add: template_def c r) (simp add: js_def trim_def is_space_def)
qed

lemma parameters_chaos_blank:
  "parameters (analyze (js ''--chaos 50'')) =
     [\<lparr>param_name = js ''chaos'', param_value = js ''50'', param_enabled = True\<rparr>]"
proof -
  have "match_all paramRegex (js ''--chaos 50'') 0 = [(0, 10, [(2, js ''50''), (1, js ''chaos'')])]"
    by (simp add: paramRegex_def js_def re_defs cls_defs loop_simps)
  then show ?thesis by (simp add: analyze_def to_parameter_def capture_def)
qed

text \<open>
  A prompt whose own analysis has no parameter: adding \<open>chaos\<close> and updating it to
  \<open>50\<close> gives a prompt whose only parameter is \<open>chaos\<close> with the value \<open>50\<close>.
\<close>

lemma add_then_update_chaos_without_flags:
  assumes "parameters (analyze prompt0) = []"
  shows "add prompt0 (js ''chaos'') = Inr (trim (prompt0 @ js '' --chaos 0''))
       \<and> update (trim (prompt0 @ js '' --chaos 0'')) (js ''chaos'') (js ''50'') =
           Some (trim (prompt0 @ js '' --chaos 50''))
       \<and> parameters (analyze (trim (prompt0 @ js '' --chaos 50''))) =
           [\<lparr>param_name = js ''chaos'', param_value = js ''50'', param_enabled = True\<rparr>]"
proof -
  have w0: "js '' --chaos 0'' \<noteq> []" "\<not> is_space (last (js '' --chaos 0''))"
    and w50: "js '' --chaos 50'' \<noteq> []" "\<not> is_space (last (js '' --chaos 50''))"
    by (simp_all add: js_def is_space_def)
  have d0: "dropWhile is_space (js '' --chaos 0'') = js ''--chaos 0''"
    and d50: "dropWhile is_space (js '' --chaos 50'') = js ''--chaos 50''"
    by (simp_all add: js_def is_space_def)
  show ?thesis
  proof (cases "trim prompt0 = []")
    case True
    have "trim (prompt0 @ js '' --chaos 0'') = js ''--chaos 0''"
      and "trim (prompt0 @ js '' --chaos 50'') = js ''--chaos 50''"
      using True by (simp_all add: trim_append_flag[OF w0] trim_append_flag[OF w50] d0 d50)
    then show ?thesis
      by (simp add: add_chaos update_chaos_blank parameters_chaos_blank)
  next
    case False
    define A where "A = dropWhile is_space prompt0"
    have nf: "\<forall>i. \<not> flag_at A i"
      unfolding A_def using assms no_flag_dropWhile by (simp add: no_flag_iff)
    have An: "A \<noteq> []"
      using False unfolding A_def trim_eq_Nil_iff dropWhile_eq_Nil_conv .
    then have Ah: "\<not> is_space (hd A)"
      unfolding A_def by (rule hd_dropWhile)
    note A = An Ah
    have t0: "trim (prompt0 @ js '' --chaos 0'') = A @ js '' --chaos 0''"
      and t50: "trim (prompt0 @ js '' --chaos 50'') = A @ js '' --chaos 50''"
      using False by (simp_all add: trim_append_flag[OF w0] trim_append_flag[OF w50] A_def)
    have "trim (A @ js '' --chaos 50'') = A @ js '' --chaos 50''"
      by (rule trim_fixed) (use A w50 in simp)
    then show ?thesis
      using update_appended_chaos[OF nf] parameters_appended_chaos[OF nf]
      by (simp add: add_chaos t0 t50)
  qed
qed

lemma tile_add: "add (js ''--tile'') (js ''chaos'') = Inr (js ''--tile --chaos 0'')"
  by (simp add: add_chaos) (simp add: js_def trim_def is_space_def)

lemma tile_update:
  "update (js ''--tile --chaos 0'') (js ''chaos'') (js ''50'') = Some (js ''--tile --chaos 50'')"
proof -
  have v: "trim (js ''50'') = js ''50''" by (simp add: js_def trim_def is_space_def)
  have r: "js_replace (literalParamRegex (js ''chaos'')) (js ''--tile --chaos 0'')
             (js ''--chaos 50 '') = js ''--tile --chaos 50 ''"
    by (simp add: js_replace_def literalParamRegex_def js_def re_defs cls_defs loop_simps matched_def)
  have c: "js ''--'' @ js ''chaos'' @ js '' '' @ js ''50'' @ js '' '' = js ''--chaos 50 ''"
    by (simp add: js_def)
  show ?thesis
    unfolding update_chaos Let_def v
    by (simp add: template_def c r) (simp add: js_def trim_def is_space_def)
qed

lemma tile_parameters:
  "parameters (analyze (js ''--tile --chaos 50'')) =
     [\<lparr>param_name = js ''tile'', param_value = js ''--chaos'', param_enabled = True\<rparr>]"
proof -
  have "match_all paramRegex (js ''--tile --chaos 50'') 0 =
          [(0, 14, [(2, js ''--chaos''), (1, js ''tile'')])]"
    by (simp add: paramRegex_def js_def re_defs cls_defs loop_simps)
  then show ?thesis by (simp add: analyze_def to_parameter_def capture_def)
qed

text \<open>
  The prompt \<open>--tile\<close>: the flag pattern reads the appended \<open>--chaos\<close> as the value
  of \<open>tile\<close>, so after the addition and the update the analysis has the single
  parameter \<open>tile\<close> and no parameter named \<open>chaos\<close> at all.
\<close>

theorem add_then_update_chaos_counterexample:
  "add (js ''--tile'') (js ''chaos'') = Inr (js ''--tile --chaos 0'')
   \<and> update (js ''--tile --chaos 0'') (js ''chaos'') (js ''50'') = Some (js ''--tile --chaos 50'')
   \<and> parameters (analyze (js ''--tile --chaos 50'')) =
       [\<lparr>param_name = js ''tile'', param_value = js ''--chaos'', param_enabled = True\<rparr>]
   \<and> filter (\<lambda>p. param_name p = js ''chaos'' \<and> param_value p = js ''50'')
         (parameters (analyze (js ''--tile --chaos 50''))) = []"
  by (simp add: tile_add tile_update tile_parameters) (simp add: js_def)

section \<open>Two texts with a common prefix\<close>

lemma take_eq_length:
  assumes "take n s = take n t" and "i < n"
  shows "i < length s \<longleftrightarrow> i < length t"
proof -
  have "min n (length s) = min n (length t)"
    using assms(1) by (metis length_take min.commute)
  then show ?thesis using assms(2) by linarith
qed

lemma take_eq_nth:
  assumes "take n s = take n t" and "i < n"
  shows "s ! i = t ! i"
  using assms by (metis nth_take)

lemma take_eq_slice:
  assumes "take n s = take n t" and "j \<le> n"
  shows "slice s i j = slice t i j"
proof -
  have "take j s = take j t"
    using assms by (metis min.absorb1 take_take)
  moreover have "slice u i j = drop i (take j u)" for u :: jsstring
    by (simp add: slice_def drop_take)
  ultimately show ?thesis by simp
qed

lemma concat_map_filter_irrelevant:
  "(\<And>x. x \<in> set xs \<Longrightarrow> \<not> P x \<Longrightarrow> g x = []) \<Longrightarrow>
     concat (map g xs) = concat (map g (filter P xs))"
  by (induction xs) auto

lemma ends_beyond:
  assumes "n \<le> fst x"
  shows "filter (\<lambda>m. fst m < n) (ends r s x) = []"
proof -
  have "\<not> fst y < n" if "y \<in> set (ends r s x)" for y
    using ends_mono[OF that] assms by simp
  then show ?thesis by (simp add: filter_empty_conv)
qed

lemma ends_prefix_agree:
  assumes "take n s = take n t" and "fst m \<le> length s" and "fst m \<le> length t"
  shows "filter (\<lambda>x. fst x < n) (ends r s m) = filter (\<lambda>x. fst x < n) (ends r t m)"
  using assms
proof (induction r s m rule: ends.induct)
  case (1 s m)
  then show ?case by simp
next
  case (2 P s m)
  note tk = "2.prems"(1)
  show ?case
  proof (cases "fst m < n")
    case True
    have l: "fst m < length s \<longleftrightarrow> fst m < length t"
      by (rule take_eq_length[OF tk True])
    have e: "s ! fst m = t ! fst m"
      by (rule take_eq_nth[OF tk True])
    show ?thesis unfolding ends.simps l e by simp
  next
    case False
    then show ?thesis by auto
  qed
next
  case (3 a b s m)
  note tk = "3.prems"(1)
  let ?P = "\<lambda>x. fst x < n"
  have ia: "filter ?P (ends a s m) = filter ?P (ends a t m)"
    using "3.IH"(1) "3.prems" by simp
  have ib: "filter ?P (ends b s x) = filter ?P (ends b t x)"
    if "x \<in> set (filter ?P (ends a s m))" for x
  proof -
    have xs: "x \<in> set (ends a s m)" using that by simp
    have xt: "x \<in> set (ends a t m)" using that unfolding ia by simp
    show ?thesis
      using "3.IH"(2)[OF xs tk] ends_bound[OF xs "3.prems"(2)] ends_bound[OF xt "3.prems"(3)]
      by simp
  qed
  have "filter ?P (ends (Seq a b) s m) =
          concat (map (\<lambda>x. filter ?P (ends b s x)) (ends a s m))"
    by (simp add: filter_concat comp_def)
  also have "\<dots> = concat (map (\<lambda>x. filter ?P (ends b s x)) (filter ?P (ends a s m)))"
    by (rule concat_map_filter_irrelevant) (simp add: ends_beyond)
  also have "\<dots> = concat (map (\<lambda>x. filter ?P (ends b t x)) (filter ?P (ends a s m)))"
    by (rule arg_cong[where f = concat], rule map_cong[OF refl], rule ib)
  also have "\<dots> = concat (map (\<lambda>x. filter ?P (ends b t x)) (filter ?P (ends a t m)))"
    by (simp only: ia)
  also have "\<dots> = concat (map (\<lambda>x. filter ?P (ends b t x)) (ends a t m))"
    by (rule concat_map_filter_irrelevant[symmetric]) (simp add: ends_beyond)
  also have "\<dots> = filter ?P (ends (Seq a b) t m)"
    by (simp add: filter_concat comp_def)
  finally show ?case .
next
  case (4 a b s m)
  then show ?case by simp
next
  case (5 r s m)
  note tk = "5.prems"(1)
  let ?P = "\<lambda>x. fst x < n"
  let ?m' = "(fst m, clear_caps r (snd m))"
  let ?gs = "\<lambda>x. if fst m < fst x \<and> fst x \<le> length s then ends (Star r) s x else []"
  let ?gt = "\<lambda>x. if fst m < fst x \<and> fst x \<le> length t then ends (Star r) t x else []"
  have ia: "filter ?P (ends r s ?m') = filter ?P (ends r t ?m')"
    using "5.IH"(1) "5.prems" by simp
  have ib: "filter ?P (?gs x) = filter ?P (?gt x)"
    if "x \<in> set (filter ?P (ends r s ?m'))" for x
  proof -
    have xs: "x \<in> set (ends r s ?m')" using that by simp
    have xt: "x \<in> set (ends r t ?m')" using that unfolding ia by simp
    have bs: "fst x \<le> length s" using ends_bound[OF xs] "5.prems" by simp
    have bt: "fst x \<le> length t" using ends_bound[OF xt] "5.prems" by simp
    show ?thesis
    proof (cases "fst m < fst x")
      case True
      then show ?thesis using "5.IH"(2)[OF xs _ tk bs bt] bs bt by simp
    next
      case False
      then show ?thesis by simp
    qed
  qed
  have "filter ?P (ends (Star r) s m) =
          concat (map (\<lambda>x. filter ?P (?gs x)) (ends r s ?m')) @ filter ?P [m]"
    by (subst ends.simps(5)) (simp add: filter_concat comp_def)
  also have "concat (map (\<lambda>x. filter ?P (?gs x)) (ends r s ?m')) =
             concat (map (\<lambda>x. filter ?P (?gs x)) (filter ?P (ends r s ?m')))"
    by (rule concat_map_filter_irrelevant) (simp add: ends_beyond)
  also have "\<dots> = concat (map (\<lambda>x. filter ?P (?gt x)) (filter ?P (ends r s ?m')))"
    by (rule arg_cong[where f = concat], rule map_cong[OF refl], rule ib)
  also have "\<dots> = concat (map (\<lambda>x. filter ?P (?gt x)) (filter ?P (ends r t ?m')))"
    by (simp only: ia)
  also have "\<dots> = concat (map (\<lambda>x. filter ?P (?gt x)) (ends r t ?m'))"
    by (rule concat_map_filter_irrelevant[symmetric]) (simp add: ends_beyond)
  finally have "filter ?P (ends (Star r) s m) =
          concat (map (\<lambda>x. filter ?P (?gt x)) (ends r t ?m')) @ filter ?P [m]" .
  also have "\<dots> = filter ?P (ends (Star r) t m)"
    by (subst (2) ends.simps(5)) (simp add: filter_concat comp_def)
  finally show ?case .
next
  case (6 r s m)
  note tk = "6.prems"(1)
  let ?P = "\<lambda>x. fst x < n"
  let ?m' = "(fst m, clear_caps r (snd m))"
  let ?gs = "\<lambda>x. if fst m < fst x \<and> fst x \<le> length s then ends (LazyStar r) s x else []"
  let ?gt = "\<lambda>x. if fst m < fst x \<and> fst x \<le> length t then ends (LazyStar r) t x else []"
  have ia: "filter ?P (ends r s ?m') = filter ?P (ends r t ?m')"
    using "6.IH"(1) "6.prems" by simp
  have ib: "filter ?P (?gs x) = filter ?P (?gt x)"
    if "x \<in> set (filter ?P (ends r s ?m'))" for x
  proof -
    have xs: "x \<in> set (ends r s ?m')" using that by simp
    have xt: "x \<in> set (ends r t ?m')" using that unfolding ia by simp
    have bs: "fst x \<le> length s" using ends_bound[OF xs] "6.prems" by simp
    have bt: "fst x \<le> length t" using ends_bound[OF xt] "6.prems" by simp
    show ?thesis
    proof (cases "fst m < fst x")
      case True
      then show ?thesis using "6.IH"(2)[OF xs _ tk bs bt] bs bt by simp
    next
      case False
      then show ?thesis by simp
    qed
  qed
  have "filter ?P (ends (LazyStar r) s m) =
          filter ?P [m] @ concat (map (\<lambda>x. filter ?P (?gs x)) (ends r s ?m'))"
    by (subst ends.simps(6)) (simp add: filter_concat comp_def)
  also have "concat (map (\<lambda>x. filter ?P (?gs x)) (ends r s ?m')) =
             concat (map (\<lambda>x. filter ?P (?gs x)) (filter ?P (ends r s ?m')))"
    by (rule concat_map_filter_irrelevant) (simp add: ends_beyond)
  also have "\<dots> = concat (map (\<lambda>x. filter ?P (?gt x)) (filter ?P (ends r s ?m')))"
    by (rule arg_cong[where f = concat], rule map_cong[OF refl], rule ib)
  also have "\<dots> = concat (map (\<lambda>x. filter ?P (?gt x)) (filter ?P (ends r t ?m')))"
    by (simp only: ia)
  also have "\<dots> = concat (map (\<lambda>x. filter ?P (?gt x)) (ends r t ?m'))"
    by (rule concat_map_filter_irrelevant[symmetric]) (simp add: ends_beyond)
  finally have "filter ?P (ends (LazyStar r) s m) =
          filter ?P [m] @ concat (map (\<lambda>x. filter ?P (?gt x)) (ends r t ?m'))" .
  also have "\<dots> = filter ?P (ends (LazyStar r) t m)"
    by (subst (2) ends.simps(6)) (simp add: filter_concat comp_def)
  finally show ?case .
next
  case (7 r s m)
  note tk = "7.prems"(1)
  let ?P = "\<lambda>x. fst x < n"
  have ia: "filter ?P (ends r s (fst m, clear_caps r (snd m))) =
            filter ?P (ends r t (fst m, clear_caps r (snd m)))"
    using "7.IH" "7.prems" by simp
  have c: "filter ?P (filter (\<lambda>x. fst m < fst x) xs) = filter (\<lambda>x. fst m < fst x) (filter ?P xs)"
    for xs :: "mstate list"
    by (induction xs) auto
  have "filter ?P (ends (Opt r) s m) =
          filter (\<lambda>x. fst m < fst x) (filter ?P (ends r s (fst m, clear_caps r (snd m))))
          @ filter ?P [m]"
    by (simp only: ends.simps filter_append c)
  also have "\<dots> = filter (\<lambda>x. fst m < fst x) (filter ?P (ends r t (fst m, clear_caps r (snd m))))
          @ filter ?P [m]"
    by (simp only: ia)
  also have "\<dots> = filter ?P (ends (Opt r) t m)"
    by (simp only: ends.simps filter_append c)
  finally show ?case .
next
  case (8 k r s m)
  note tk = "8.prems"(1)
  let ?P = "\<lambda>x. fst x < n"
  have ia: "filter ?P (ends r s m) = filter ?P (ends r t m)"
    using "8.IH" "8.prems" by simp
  have hs: "filter ?P (map (\<lambda>x. (fst x, set_cap k (slice u (fst m) (fst x)) (snd x))) xs) =
            map (\<lambda>x. (fst x, set_cap k (slice u (fst m) (fst x)) (snd x))) (filter ?P xs)"
    for u and xs :: "mstate list"
    by (simp add: filter_map comp_def)
  have "map (\<lambda>x. (fst x, set_cap k (slice s (fst m) (fst x)) (snd x))) (filter ?P (ends r t m)) =
        map (\<lambda>x. (fst x, set_cap k (slice t (fst m) (fst x)) (snd x))) (filter ?P (ends r t m))"
    by (rule map_cong[OF refl]) (simp add: take_eq_slice[OF tk])
  then show ?case by (simp only: ends.simps hs ia)
next
  case (9 s m)
  note tk = "9.prems"(1)
  show ?case
  proof (cases "fst m < n")
    case True
    have "fst m = length s \<longleftrightarrow> fst m = length t"
      using take_eq_length[OF tk True] "9.prems" by auto
    then show ?thesis by simp
  next
    case False
    then show ?thesis by auto
  qed
next
  case (10 s m)
  note tk = "10.prems"(1)
  show ?case
  proof (cases "fst m < n")
    case True
    have 1: "word_at s (fst m) = word_at t (fst m)"
      using take_eq_length[OF tk True] take_eq_nth[OF tk True]
      by (auto simp: word_at_def)
    have 2: "word_at s (fst m - 1) = word_at t (fst m - 1)" if "0 < fst m"
    proof -
      have l: "fst m - 1 < n" using True by simp
      show ?thesis
        using take_eq_length[OF tk l] take_eq_nth[OF tk l]
        by (auto simp: word_at_def)
    qed
    show ?thesis using 1 2 by auto
  next
    case False
    then show ?thesis by auto
  qed
next
  case (11 P s m)
  note tk = "11.prems"(1)
  show ?case
  proof (cases "fst m < n")
    case True
    have "P (s ! (fst m - 1)) = P (t ! (fst m - 1))" if "0 < fst m"
    proof -
      have l: "fst m - 1 < n" using True by simp
      show ?thesis using take_eq_nth[OF tk l] by simp
    qed
    then show ?thesis using "11.prems" by auto
  next
    case False
    then show ?thesis by auto
  qed
qed

section \<open>Adding and updating a flag after other flags\<close>

lemma alnum_not_space: "is_alnum c \<Longrightarrow> \<not> is_space c"
  by (auto simp: is_alnum_def is_space_def)

lemma slice_nth: "i \<le> p \<Longrightarrow> p < j \<Longrightarrow> j \<le> length s \<Longrightarrow> slice s i j ! (p - i) = s ! p"
  by (simp add: slice_def)

lemma slice_length: "i \<le> j \<Longrightarrow> j \<le> length s \<Longrightarrow> length (slice s i j) = j - i"
  by (simp add: slice_def)

text \<open>
  A match of the flag pattern has white space only in its run of separators, so it cannot
  cover two white-space characters with a character in between that is no separator.
\<close>

lemma flag_match_stops:
  assumes m: "m \<in> set (ends paramRegex s (st, []))"
    and st: "st \<le> a" "st \<le> length s" and ab: "a < b" "Suc b \<le> length s"
    and sa: "is_space (s ! a)" and sb: "is_space (s ! b)"
    and mid: "\<not> colon_or_space (s ! Suc a)" "Suc a < b"
  shows "fst m \<le> b"
proof (rule ccontr)
  assume "\<not> fst m \<le> b"
  then have jb: "b < fst m" by simp
  have jl: "fst m \<le> length s" using ends_bound[OF m] st by simp
  from paramRegex_result[OF m] obtain name seps v where r:
    "\<forall>c\<in>set name. is_alnum c" "\<forall>c\<in>set seps. colon_or_space c" "\<forall>c\<in>set v. non_space c"
    "slice s st (fst m) = js ''--'' @ name @ seps @ v"
    by blast
  define pre where "pre = js ''--'' @ name"
  define u where "u = slice s st (fst m)"
  have u: "u = pre @ seps @ v" using r(4) by (simp add: u_def pre_def)
  have pre_ns: "\<forall>c\<in>set pre. \<not> is_space c"
    using r(1) alnum_not_space by (auto simp: pre_def js_def is_space_def)
  have un: "u ! (p - st) = s ! p" if "st \<le> p" "p < fst m" for p
    unfolding u_def using that jl by (rule slice_nth)
  have ul: "length u = fst m - st" unfolding u_def using st jb ab jl by (simp add: slice_length)
  have seg: "length pre \<le> k \<and> k < length pre + length seps"
    if "k < length u" "is_space (u ! k)" for k
  proof (rule ccontr)
    assume "\<not> (length pre \<le> k \<and> k < length pre + length seps)"
    then consider "k < length pre" | "length pre + length seps \<le> k" by linarith
    then show False
    proof cases
      case 1
      then have "u ! k \<in> set pre" by (simp add: u nth_append)
      then show ?thesis using pre_ns that by blast
    next
      case 2
      have "u ! k = ((pre @ seps) @ v) ! k" by (simp add: u)
      also have "\<dots> = v ! (k - length (pre @ seps))"
        using 2 by (subst nth_append) simp
      finally have "u ! k = v ! (k - length (pre @ seps))" .
      moreover have "k - length (pre @ seps) < length v" using that 2 by (simp add: u)
      ultimately have "u ! k \<in> set v" by simp
      then show ?thesis using r(3) that by (auto simp: non_space_def)
    qed
  qed
  have ka: "a - st < length u" "is_space (u ! (a - st))"
    using un[of a] st ab jb sa by (simp_all add: ul)
  have kb: "b - st < length u" "is_space (u ! (b - st))"
    using un[of b] st ab jb sb by (simp_all add: ul)
  from seg[OF ka] seg[OF kb] have "length pre \<le> Suc a - st" "Suc a - st < length pre + length seps"
    using st ab mid by auto
  then have "u ! (Suc a - st) = seps ! (Suc a - st - length pre)"
    "Suc a - st - length pre < length seps"
    by (auto simp: u nth_append)
  then have "u ! (Suc a - st) \<in> set seps" by simp
  moreover have "u ! (Suc a - st) = s ! Suc a" using un[of "Suc a"] st mid jb by simp
  ultimately show False using r(2) mid by auto
qed

lemma not_starts_with_across_space:
  assumes "\<not> js_includes A u" and "k \<le> length A" and "32 \<notin> set u"
  shows "\<not> starts_with (drop k (A @ 32 # rest)) u"
proof
  assume "starts_with (drop k (A @ 32 # rest)) u"
  then obtain b where "drop k (A @ 32 # rest) = u @ b" by (auto simp: starts_with_iff)
  then have eq: "drop k A @ 32 # rest = u @ b" using assms(2) by simp
  show False
  proof (cases "length u \<le> length (drop k A)")
    case True
    have "take (length u) (drop k A @ 32 # rest) = take (length u) (u @ b)" by (simp only: eq)
    then have "take (length u) (drop k A) = u" using True by simp
    then have "drop k A = u @ drop (length u) (drop k A)"
      by (metis append_take_drop_id)
    then have "starts_with (drop k A) u" unfolding starts_with_iff by blast
    then have "js_includes A u" using assms(2) unfolding js_includes_drop by blast
    then show False using assms(1) by simp
  next
    case False
    then have lt: "length (drop k A) < length u" by simp
    have "(drop k A @ 32 # rest) ! length (drop k A) = (u @ b) ! length (drop k A)"
      by (simp only: eq)
    then have "u ! length (drop k A) = 32" using lt by (simp add: nth_append)
    then have "32 \<in> set u" using lt by (metis nth_mem)
    then show False using assms(3) by simp
  qed
qed

lemma js_includes_dropWhile:
  "js_includes (dropWhile P s) u \<Longrightarrow> js_includes s u"
proof -
  assume "js_includes (dropWhile P s) u"
  then obtain a b where "dropWhile P s = a @ u @ b" by (auto simp: js_includes_iff)
  then have "s = (takeWhile P s @ a) @ u @ b"
    by (metis takeWhile_dropWhile_id append_assoc)
  then show ?thesis unfolding js_includes_iff by blast
qed

text \<open>The update of the appended flag, when \<open>--chaos\<close> does not occur before it.\<close>

lemma update_appended_chaos_general:
  assumes "\<not> js_includes A (js ''--chaos'')"
  shows "update (A @ js '' --chaos 0'') (js ''chaos'') (js ''50'') =
           Some (trim (A @ js '' --chaos 50''))"
proof -
  let ?s = "A @ js '' --chaos 0''"
  let ?r = "literalParamRegex (js ''chaos'')"
  have s: "?s = A @ 32 # js ''--chaos 0''" by (simp add: js_def)
  have c: "js ''--'' @ js ''chaos'' = js ''--chaos''" by (simp add: js_def)
  have ns: "32 \<notin> set (js ''--chaos'')" by (simp add: js_def)
  have before: "\<forall>k. 0 \<le> k \<and> k < length A + 1 \<longrightarrow> ends ?r ?s (k, []) = []"
  proof (intro allI impI)
    fix k assume "0 \<le> k \<and> k < length A + 1"
    then have "k \<le> length A" by simp
    then have "\<not> starts_with (drop k ?s) (js ''--chaos'')"
      unfolding s by (rule not_starts_with_across_space[OF assms _ ns])
    then show "ends ?r ?s (k, []) = []" by (simp add: ends_literalParamRegex_empty c)
  qed
  have sh: "ends ?r ?s (length A + 1, []) =
              map (\<lambda>x. (length A + fst x, snd x)) (ends ?r (js '' --chaos 0'') (1, []))"
    using ends_shift[OF no_lookbehind_literalParamRegex, of "js ''chaos''" A "js '' --chaos 0''" "(1, [])"]
    by simp
  have at: "ends ?r ?s (length A + 1, []) =
              (length A + 10, []) # [(length A + 9, []), (length A + 8, [])]"
    unfolding sh update_pattern_on_chaos_0 by simp
  have len: "length ?s = length A + 10" by (simp add: js_def)
  have ex: "exec_from ?r ?s 0 = Some (length A + 1, (length A + 10, []))"
    by (rule exec_from_first[OF before at]) (simp_all add: js_def)
  have v: "trim (js ''50'') = js ''50''" by (simp add: js_def trim_def is_space_def)
  have tk: "take (length A + 1) ?s = A @ [32]" by (simp add: js_def)
  have sub: "get_substitution mt s0 pos (js ''--'' @ js ''chaos'' @ js '' '' @ js ''50'' @ js '' '')
               = js ''--chaos 50 ''" for mt s0 pos
    by (simp add: js_def)
  have "update ?s (js ''chaos'') (js ''50'') = Some (trim ((A @ js '' --chaos 50'') @ [32]))"
    unfolding update_chaos Let_def v js_replace_def ex
    by (simp add: template_def sub tk len) (simp add: js_def)
  then show ?thesis by (simp only: trim_append_space[of 32, unfolded is_space_def, simplified])
qed

lemma flag_pattern_on_chaos_0:
  "ends paramRegex (js '' --chaos 0'') (1, []) =
     [(10, [(2, js ''0''), (1, js ''chaos'')]),
      (8, [(1, js ''chaos'')]), (7, [(1, js ''chao'')]), (6, [(1, js ''cha'')]),
      (5, [(1, js ''ch'')]), (4, [(1, js ''c'')])]"
  by (simp add: paramRegex_def js_def re_defs cls_defs loop_simps)

lemma ends_before_appended:
  assumes "st \<le> length A"
  shows "ends paramRegex (A @ js '' --chaos 0'') (st, []) =
         ends paramRegex (A @ js '' --chaos 50'') (st, [])"
proof -
  let ?Q = "A @ js '' --chaos 0''" and ?R = "A @ js '' --chaos 50''"
  let ?n = "length A + 9"
  have tk: "take ?n ?Q = take ?n ?R" by (simp add: js_def)
  have stop: "fst m \<le> length A + 8"
    if "m \<in> set (ends paramRegex (A @ 32 # 45 # 45 # 99 # 104 # 97 # 111 # 115 # 32 # z) (st, []))"
       "z \<noteq> []" for m z
  proof (rule flag_match_stops[OF that(1), of "length A" "length A + 8"])
    show "st \<le> length A" by (rule assms)
  qed (use assms that(2) in \<open>simp_all add: nth_append is_space_def colon_or_space_def\<close>)
  have q: "?Q = A @ 32 # 45 # 45 # 99 # 104 # 97 # 111 # 115 # 32 # js ''0''"
    and r: "?R = A @ 32 # 45 # 45 # 99 # 104 # 97 # 111 # 115 # 32 # js ''50''"
    by (simp_all add: js_def)
  have fq: "filter (\<lambda>x. fst x < ?n) (ends paramRegex ?Q (st, [])) = ends paramRegex ?Q (st, [])"
    unfolding filter_id_conv q using stop[of _ "js ''0''"] by (fastforce simp: js_def)
  have fr: "filter (\<lambda>x. fst x < ?n) (ends paramRegex ?R (st, [])) = ends paramRegex ?R (st, [])"
    unfolding filter_id_conv r using stop[of _ "js ''50''"] by (fastforce simp: js_def)
  have "filter (\<lambda>x. fst x < ?n) (ends paramRegex ?Q (st, [])) =
        filter (\<lambda>x. fst x < ?n) (ends paramRegex ?R (st, []))"
    by (rule ends_prefix_agree[OF tk]) (use assms in simp_all)
  then show ?thesis unfolding fq fr .
qed

lemma flag_match_nonempty:
  assumes "m \<in> set (ends paramRegex s (st, []))"
  shows "st < fst m"
proof -
  from paramRegex_result[OF assms] obtain name seps v where
    "slice s st (fst m) = js ''--'' @ name @ seps @ v" by blast
  then have "slice s st (fst m) \<noteq> []" by (simp add: js_def)
  then show ?thesis by (auto simp: slice_def)
qed

lemma no_match_at_end:
  "length s \<le> i + 2 \<Longrightarrow> match_all paramRegex s i = []"
proof -
  assume "length s \<le> i + 2"
  then have "exec_from paramRegex s i = None"
    unfolding exec_from_None ends_paramRegex_empty flag_at_nth by auto
  then show ?thesis by (subst match_all_unguarded) simp
qed

lemma scan_appended:
  assumes "(length A + 1, (length A + 10, [(2, js ''0''), (1, js ''chaos'')]))
             \<in> set (match_all paramRegex (A @ js '' --chaos 0'') i)"
    and "i \<le> length A + 1"
  shows "\<exists>pre. match_all paramRegex (A @ js '' --chaos 0'') i =
                 pre @ [(length A + 1, (length A + 10, [(2, js ''0''), (1, js ''chaos'')]))]
             \<and> match_all paramRegex (A @ js '' --chaos 50'') i =
                 pre @ [(length A + 1, (length A + 11, [(2, js ''50''), (1, js ''chaos'')]))]"
  using assms
proof (induction "length A + 1 - i" arbitrary: i rule: less_induct)
  case less
  let ?Q = "A @ js '' --chaos 0''" and ?R = "A @ js '' --chaos 50''"
  let ?x0 = "(length A + 1, (length A + 10, [(2, js ''0''), (1, js ''chaos'')]))"
  let ?x50 = "(length A + 1, (length A + 11, [(2, js ''50''), (1, js ''chaos'')]))"
  have lq: "length ?Q = length A + 10" and lr: "length ?R = length A + 11"
    by (simp_all add: js_def)
  have shq: "ends paramRegex ?Q (length A + 1, []) =
              map (\<lambda>x. (length A + fst x, snd x)) (ends paramRegex (js '' --chaos 0'') (1, []))"
    using ends_shift[OF no_lookbehind_paramRegex, of A "js '' --chaos 0''" "(1, [])"] by simp
  have shr: "ends paramRegex ?R (length A + 1, []) =
              map (\<lambda>x. (length A + fst x, snd x)) (ends paramRegex (js '' --chaos 50'') (1, []))"
    using ends_shift[OF no_lookbehind_paramRegex, of A "js '' --chaos 50''" "(1, [])"] by simp
  obtain tq where atq: "ends paramRegex ?Q (length A + 1, []) = snd ?x0 # tq"
    unfolding shq flag_pattern_on_chaos_0 by simp
  obtain tr where atr: "ends paramRegex ?R (length A + 1, []) = snd ?x50 # tr"
    unfolding shr flag_pattern_on_chaos_50 by simp
  have endq: "match_all paramRegex ?Q (length A + 10) = []"
    by (rule no_match_at_end) (simp add: js_def)
  have endr: "match_all paramRegex ?R (length A + 11) = []"
    by (rule no_match_at_end) (simp add: js_def)
  obtain st m where ex: "exec_from paramRegex ?Q i = Some (st, m)"
  proof (cases "exec_from paramRegex ?Q i")
    case None
    then have "match_all paramRegex ?Q i = []" by (subst match_all_unguarded) simp
    then show ?thesis using less.prems(1) by simp
  next
    case (Some y)
    then show ?thesis using that by (cases y) auto
  qed
  note e = exec_from_Some[OF ex]
  have m: "m \<in> set (ends paramRegex ?Q (st, []))" using e by simp
  have nz: "st < fst m" by (rule flag_match_nonempty[OF m])
  have mq: "match_all paramRegex ?Q i = (st, m) # match_all paramRegex ?Q (fst m)"
    using ex nz by (subst match_all_unguarded) simp
  have st_le: "st \<le> length A + 1"
  proof (rule ccontr)
    assume "\<not> st \<le> length A + 1"
    then have "ends paramRegex ?Q (length A + 1, []) = []" using e less.prems(2) by simp
    then show False using atq by simp
  qed
  have before: "\<forall>k. i \<le> k \<and> k < st \<longrightarrow> ends paramRegex ?R (k, []) = []"
  proof (intro allI impI)
    fix k assume k: "i \<le> k \<and> k < st"
    then have "k \<le> length A" using st_le by simp
    then have "ends paramRegex ?R (k, []) = ends paramRegex ?Q (k, [])"
      by (rule ends_before_appended[symmetric])
    then show "ends paramRegex ?R (k, []) = []" using e k by simp
  qed
  show ?case
  proof (cases "st = length A + 1")
    case True
    then have mm: "m = snd ?x0" using e atq by simp
    have 1: "match_all paramRegex ?Q i = [] @ [?x0]"
      using mq True mm endq by simp
    have "exec_from paramRegex ?R i = Some (length A + 1, snd ?x50)"
      by (rule exec_from_first[OF before[unfolded True] atr]) (use less.prems(2) lr in simp_all)
    then have 2: "match_all paramRegex ?R i = [] @ [?x50]"
      by (subst match_all_unguarded) (simp add: endr)
    show ?thesis using 1 2 by blast
  next
    case False
    then have sl: "st \<le> length A" using st_le by simp
    have "?x0 \<in> set ((st, m) # match_all paramRegex ?Q (fst m))"
      using less.prems(1) unfolding mq .
    then have in': "?x0 \<in> set (match_all paramRegex ?Q (fst m))"
      using False by auto
    then have fm: "fst m \<le> length A + 1" using match_all_elems[OF in'] by simp
    have ist: "i \<le> st" using e by simp
    have "length A + 1 - fst m < length A + 1 - i" using nz ist fm by linarith
    from less.hyps[OF this in' fm] obtain pre where
      p: "match_all paramRegex ?Q (fst m) = pre @ [?x0]"
         "match_all paramRegex ?R (fst m) = pre @ [?x50]"
      by blast
    have same: "ends paramRegex ?R (st, []) = ends paramRegex ?Q (st, [])"
      using sl by (rule ends_before_appended[symmetric])
    obtain tl where tl: "ends paramRegex ?R (st, []) = m # tl"
      using e unfolding same by (cases "ends paramRegex ?Q (st, [])") auto
    have "exec_from paramRegex ?R i = Some (st, m)"
      by (rule exec_from_first[OF before tl]) (use e sl lr in simp_all)
    then have "match_all paramRegex ?R i = (st, m) # match_all paramRegex ?R (fst m)"
      using nz by (subst match_all_unguarded) simp
    then show ?thesis using mq p by (intro exI[of _ "(st, m) # pre"]) simp
  qed
qed

lemma slice_starts_with: "slice s i j = u @ r \<Longrightarrow> starts_with (drop i s) u"
  unfolding starts_with_iff slice_def by (metis append_take_drop_id append_assoc)

lemma chaos_only_at_offset_1:
  assumes "starts_with (drop j (js '' --chaos 0'')) (js ''--chaos'')"
  shows "j = 1"
proof -
  define w :: jsstring where "w = [32, 45, 45, 99, 104, 97, 111, 115, 32, 48]"
  have w: "js '' --chaos 0'' = w" by (simp add: js_def w_def)
  have p: "js ''--chaos'' = 45 # 45 # js ''chaos''" by (simp add: js_def)
  from assms have j: "j < length w" "w ! j = 45" "Suc j < length w" "w ! Suc j = 45"
    unfolding w p by (simp_all add: starts_with_drop_Cons)
  have "j < 10" using j(1) by (simp add: w_def)
  then consider "j = 0" | "j = 1" | "j = 2" | "j = 3" | "j = 4" | "j = 5" | "j = 6"
    | "j = 7" | "j = 8" | "j = 9" by atomize_elim arith
  then show ?thesis using j(2,4) by cases (simp_all add: w_def)
qed

text \<open>In the prompt with the appended flag, a match named \<open>chaos\<close> is the appended flag.\<close>

lemma chaos_match_is_appended:
  assumes nc: "\<not> js_includes A (js ''--chaos'')"
    and x: "x \<in> set (match_all paramRegex (A @ js '' --chaos 0'') 0)"
    and n: "param_name (to_parameter x) = js ''chaos''"
  shows "x = (length A + 1, (length A + 10, [(2, js ''0''), (1, js ''chaos'')]))"
proof -
  let ?Q = "A @ js '' --chaos 0''"
  have q: "?Q = A @ 32 # js ''--chaos 0''" by (simp add: js_def)
  have ns: "32 \<notin> set (js ''--chaos'')" by (simp add: js_def)
  from to_parameter_of_match(5)[OF x] n obtain seps where
    "matched ?Q x = js ''--'' @ js ''chaos'' @ seps @ param_value (to_parameter x)" by auto
  then have "slice ?Q (fst x) (fst (snd x)) = js ''--chaos'' @ (seps @ param_value (to_parameter x))"
    by (simp add: matched_def js_def)
  then have sw: "starts_with (drop (fst x) ?Q) (js ''--chaos'')" by (rule slice_starts_with)
  have "\<not> fst x \<le> length A"
    using not_starts_with_across_space[OF nc _ ns, of "fst x" "js ''--chaos 0''"] sw
    unfolding q by blast
  then have gt: "length A < fst x" by simp
  then have "drop (fst x) ?Q = drop (fst x - length A) (js '' --chaos 0'')" by simp
  then have "fst x - length A = 1" using sw chaos_only_at_offset_1 by simp
  then have fx: "fst x = length A + 1" using gt by simp
  have sh: "ends paramRegex ?Q (length A + 1, []) =
              map (\<lambda>x. (length A + fst x, snd x)) (ends paramRegex (js '' --chaos 0'') (1, []))"
    using ends_shift[OF no_lookbehind_paramRegex, of A "js '' --chaos 0''" "(1, [])"] by simp
  have "snd x = hd (ends paramRegex ?Q (fst x, []))" using match_all_elems[OF x] by simp
  then have "snd x = (length A + 10, [(2, js ''0''), (1, js ''chaos'')])"
    unfolding fx sh flag_pattern_on_chaos_0 by simp
  then show ?thesis using fx by (cases x) simp
qed

lemma parameters_chaos_0_blank:
  "parameters (analyze (js ''--chaos 0'')) =
     [\<lparr>param_name = js ''chaos'', param_value = js ''0'', param_enabled = True\<rparr>]"
proof -
  have "match_all paramRegex (js ''--chaos 0'') 0 = [(0, 9, [(2, js ''0''), (1, js ''chaos'')])]"
    by (simp add: paramRegex_def js_def re_defs cls_defs loop_simps)
  then show ?thesis by (simp add: analyze_def to_parameter_def capture_def)
qed

text \<open>
  Claim C7, as the code has it. Take a prompt in which \<open>--chaos\<close> does not occur and
  for which the analysis of the prompt with \<open>chaos\<close> added has a parameter named
  \<open>chaos\<close>, that is, the appended flag was read as a flag. Then adding \<open>chaos\<close> gives
  the trim of the prompt followed by \<open>--chaos 0\<close>, updating \<open>chaos\<close> to \<open>50\<close> gives
  the trim of the prompt followed by \<open>--chaos 50\<close>, and the two analyses have the same
  parameters except for the last one, which is \<open>chaos\<close> with \<open>0\<close> before the update
  and with \<open>50\<close> after it. No other parameter is named \<open>chaos\<close>: exactly one
  parameter has the name \<open>chaos\<close>, and its value is \<open>50\<close>.
\<close>

theorem add_then_update_chaos:
  assumes "\<not> js_includes prompt0 (js ''--chaos'')"
    and "\<exists>p\<in>set (parameters (analyze (trim (prompt0 @ js '' --chaos 0'')))).
           param_name p = js ''chaos''"
  shows "add prompt0 (js ''chaos'') = Inr (trim (prompt0 @ js '' --chaos 0''))
       \<and> update (trim (prompt0 @ js '' --chaos 0'')) (js ''chaos'') (js ''50'') =
           Some (trim (prompt0 @ js '' --chaos 50''))
       \<and> (\<exists>others.
             parameters (analyze (trim (prompt0 @ js '' --chaos 0''))) =
               others @ [\<lparr>param_name = js ''chaos'', param_value = js ''0'', param_enabled = True\<rparr>]
           \<and> parameters (analyze (trim (prompt0 @ js '' --chaos 50''))) =
               others @ [\<lparr>param_name = js ''chaos'', param_value = js ''50'', param_enabled = True\<rparr>]
           \<and> (\<forall>p\<in>set others. param_name p \<noteq> js ''chaos''))
       \<and> filter (\<lambda>p. param_name p = js ''chaos'')
            (parameters (analyze (trim (prompt0 @ js '' --chaos 50'')))) =
           [\<lparr>param_name = js ''chaos'', param_value = js ''50'', param_enabled = True\<rparr>]"
proof -
  let ?c0 = "\<lparr>param_name = js ''chaos'', param_value = js ''0'', param_enabled = True\<rparr>"
  let ?c50 = "\<lparr>param_name = js ''chaos'', param_value = js ''50'', param_enabled = True\<rparr>"
  have w0: "js '' --chaos 0'' \<noteq> []" "\<not> is_space (last (js '' --chaos 0''))"
    and w50: "js '' --chaos 50'' \<noteq> []" "\<not> is_space (last (js '' --chaos 50''))"
    by (simp_all add: js_def is_space_def)
  have d0: "dropWhile is_space (js '' --chaos 0'') = js ''--chaos 0''"
    and d50: "dropWhile is_space (js '' --chaos 50'') = js ''--chaos 50''"
    by (simp_all add: js_def is_space_def)
  have main: "update (trim (prompt0 @ js '' --chaos 0'')) (js ''chaos'') (js ''50'') =
           Some (trim (prompt0 @ js '' --chaos 50''))
       \<and> (\<exists>others.
             parameters (analyze (trim (prompt0 @ js '' --chaos 0''))) = others @ [?c0]
           \<and> parameters (analyze (trim (prompt0 @ js '' --chaos 50''))) = others @ [?c50]
           \<and> (\<forall>p\<in>set others. param_name p \<noteq> js ''chaos''))"
  proof (cases "trim prompt0 = []")
    case True
    have t: "trim (prompt0 @ js '' --chaos 0'') = js ''--chaos 0''"
      "trim (prompt0 @ js '' --chaos 50'') = js ''--chaos 50''"
      using True by (simp_all add: trim_append_flag[OF w0] trim_append_flag[OF w50] d0 d50)
    show ?thesis
      unfolding t update_chaos_blank parameters_chaos_blank parameters_chaos_0_blank
      by (intro conjI refl exI[of _ "[]"]) simp_all
  next
    case False
    define A where "A = dropWhile is_space prompt0"
    let ?Q = "A @ js '' --chaos 0''" and ?R = "A @ js '' --chaos 50''"
    let ?x0 = "(length A + 1, (length A + 10, [(2, js ''0''), (1, js ''chaos'')]))"
    let ?x50 = "(length A + 1, (length A + 11, [(2, js ''50''), (1, js ''chaos'')]))"
    have nc: "\<not> js_includes A (js ''--chaos'')"
      unfolding A_def using assms(1) js_includes_dropWhile by blast
    have An: "A \<noteq> []"
      using False unfolding A_def trim_eq_Nil_iff dropWhile_eq_Nil_conv .
    then have Ah: "\<not> is_space (hd A)"
      unfolding A_def by (rule hd_dropWhile)
    have t0: "trim (prompt0 @ js '' --chaos 0'') = ?Q"
      and t50: "trim (prompt0 @ js '' --chaos 50'') = ?R"
      using False by (simp_all add: trim_append_flag[OF w0] trim_append_flag[OF w50] A_def)
    have tR: "trim ?R = ?R"
      by (rule trim_fixed) (use An Ah w50 in simp)
    have upd: "update ?Q (js ''chaos'') (js ''50'') = Some ?R"
      using update_appended_chaos_general[OF nc] tR by simp
    from assms(2) obtain x where x: "x \<in> set (match_all paramRegex ?Q 0)"
      and xn: "param_name (to_parameter x) = js ''chaos''"
      unfolding t0 by (auto simp: analyze_def)
    have x0: "?x0 \<in> set (match_all paramRegex ?Q 0)"
      using chaos_match_is_appended[OF nc x xn] x by simp
    from scan_appended[OF x0] obtain pre where
      p: "match_all paramRegex ?Q 0 = pre @ [?x0]" "match_all paramRegex ?R 0 = pre @ [?x50]"
      by auto
    have others: "param_name (to_parameter y) \<noteq> js ''chaos''" if "y \<in> set pre" for y
    proof
      assume yn: "param_name (to_parameter y) = js ''chaos''"
      have "y \<in> set (match_all paramRegex ?Q 0)" using that p(1) by simp
      then have "y = ?x0" using chaos_match_is_appended[OF nc _ yn] by blast
      moreover have "sorted_wrt (\<lambda>x y. fst x < fst y \<and> fst (snd x) \<le> fst y) (pre @ [?x0])"
        using match_all_ordered[of paramRegex ?Q 0] unfolding p(1) .
      then have "fst y < fst ?x0" using that by (auto simp: sorted_wrt_append)
      ultimately show False by simp
    qed
    have pq: "parameters (analyze ?Q) = map to_parameter pre @ [?c0]"
      by (simp add: analyze_def p(1) to_parameter_def capture_def)
    have pr: "parameters (analyze ?R) = map to_parameter pre @ [?c50]"
      by (simp add: analyze_def p(2) to_parameter_def capture_def)
    show ?thesis
      unfolding t0 t50 upd pq pr
      by (intro conjI refl exI[of _ "map to_parameter pre"]) (use others in auto)
  qed
  then obtain others where o:
    "parameters (analyze (trim (prompt0 @ js '' --chaos 50''))) = others @ [?c50]"
    "\<forall>p\<in>set others. param_name p \<noteq> js ''chaos''"
    by blast
  have "filter (\<lambda>p. param_name p = js ''chaos'')
            (parameters (analyze (trim (prompt0 @ js '' --chaos 50'')))) = [?c50]"
    unfolding o(1) using o(2) by (simp add: filter_empty_conv)
  then show ?thesis using main by (simp add: add_chaos)
qed

lemma ar_then_chaos_0:
  "parameters (analyze (js ''a cat --ar 16:9 --chaos 0'')) =
     [\<lparr>param_name = js ''ar'', param_value = js ''16:9'', param_enabled = True\<rparr>,
      \<lparr>param_name = js ''chaos'', param_value = js ''0'', param_enabled = True\<rparr>]"
proof -
  have "match_all paramRegex (js ''a cat --ar 16:9 --chaos 0'') 0 =
          [(6, 15, [(2, js ''16:9''), (1, js ''ar'')]), (16, 25, [(2, js ''0''), (1, js ''chaos'')])]"
    by (simp add: paramRegex_def js_def re_defs cls_defs loop_simps)
  then show ?thesis by (simp add: analyze_def to_parameter_def capture_def)
qed

theorem add_then_update_chaos_witness:
  "\<not> js_includes (js ''a cat --ar 16:9'') (js ''--chaos'')
   \<and> \<lparr>param_name = js ''chaos'', param_value = js ''0'', param_enabled = True\<rparr>
       \<in> set (parameters (analyze (js ''a cat --ar 16:9 --chaos 0'')))
   \<and> add (js ''a cat --ar 16:9'') (js ''chaos'') = Inr (js ''a cat --ar 16:9 --chaos 0'')
   \<and> update (js ''a cat --ar 16:9 --chaos 0'') (js ''chaos'') (js ''50'') =
       Some (js ''a cat --ar 16:9 --chaos 50'')
   \<and> filter (\<lambda>p. param_name p = js ''chaos'')
         (parameters (analyze (js ''a cat --ar 16:9 --chaos 50''))) =
       [\<lparr>param_name = js ''chaos'', param_value = js ''50'', param_enabled = True\<rparr>]"
proof -
  have h1: "\<not> js_includes (js ''a cat --ar 16:9'') (js ''--chaos'')"
    by (simp add: js_def)
  have t0: "trim (js ''a cat --ar 16:9'' @ js '' --chaos 0'') = js ''a cat --ar 16:9 --chaos 0''"
    and t50: "trim (js ''a cat --ar 16:9'' @ js '' --chaos 50'') = js ''a cat --ar 16:9 --chaos 50''"
    by (simp_all add: js_def trim_def is_space_def)
  have h2: "\<exists>p\<in>set (parameters (analyze (trim (js ''a cat --ar 16:9'' @ js '' --chaos 0'')))).
              param_name p = js ''chaos''"
    unfolding t0 ar_then_chaos_0 by simp
  show ?thesis
    using add_then_update_chaos [OF h1 h2] h1
    unfolding t0 t50 ar_then_chaos_0 by simp
qed

section \<open>Totality\<close>

lemma analyze_empty: "analyze [] = \<lparr>imageUrls = [], descriptions = [], parameters = []\<rparr>"
proof -
  have 1: "js_match_g imageUrlRegex [] = []"
    by (simp add: js_match_g_def imageUrlRegex_def js_def re_defs loop_simps)
  have 2: "match_all paramRegex [] 0 = []"
    by (simp add: paramRegex_def js_def re_defs loop_simps)
  have 3: "js_remove_g imageUrlRegex [] = []"
    by (simp add: js_remove_g_def imageUrlRegex_def js_def re_defs loop_simps)
  have 4: "js_replace flagTailRegex [] [] = []"
    by (simp add: js_replace_def flagTailRegex_def js_def re_defs loop_simps)
  have 5: "js_remove_g mentionRegex [] = []"
    by (simp add: js_remove_g_def mentionRegex_def js_def re_defs loop_simps)
  have 6: "js_remove_g ratioRegex [] = []"
    by (simp add: js_remove_g_def ratioRegex_def js_def re_defs loop_simps)
  have 7: "js_remove_g numberRegex [] = []"
    by (simp add: js_remove_g_def numberRegex_def js_def re_defs cls_defs loop_simps)
  have 8: "js_remove_g parenRegex [] = []"
    by (simp add: js_remove_g_def parenRegex_def js_def re_defs loop_simps)
  have 9: "trim (js_replace trailingCommaRegex [] []) = []"
    by (simp add: js_replace_def trailingCommaRegex_def js_def re_defs loop_simps trim_def)
  have d: "descriptionText [] = []"
    by (simp only: descriptionText_def Let_def 3 4 5 6 7 8 9)
  show ?thesis
    unfolding analyze_def d 1 2 by (simp add: trim_def)
qed

lemma align_empty: "align [] result = []"
  by (simp add: align_def originalParts_def js_split_def originalSplitRegex_def re_defs trim_def)

lemma sentence_pieces_empty: "sentence_pieces mark need text = [] \<longleftrightarrow> trim text = []"
proof -
  have "sentence_pieces mark need text = [] \<longleftrightarrow>
          (\<forall>p\<in>set (cut_after mark need [] text). trim p = [])"
    by (auto simp: sentence_pieces_def filter_empty_conv)
  also have "\<dots> \<longleftrightarrow> (\<forall>p\<in>set (cut_after mark need [] text). \<forall>c\<in>set p. is_space c)"
    by (simp add: trim_eq_Nil_iff)
  also have "\<dots> \<longleftrightarrow> (\<forall>c\<in>set text. is_space c)"
    using cut_after_blank[of mark need "[]" "text"] by simp
  finally show ?thesis by (simp add: trim_eq_Nil_iff)
qed

lemma align_empty_iff: "align text result = [] \<longleftrightarrow> trim text = []"
proof -
  have "align text result = [] \<longleftrightarrow> originalParts text = []"
    using align_length[of "text" result] by (metis length_0_conv)
  then show ?thesis by (simp add: originalParts_pieces sentence_pieces_empty)
qed

lemma split_on_not_Nil: "split_on c s \<noteq> []"
  by (induction s) (auto split: list.splits)

lemma split_on_blank:
  "is_space c \<Longrightarrow>
     (\<forall>l\<in>set (split_on c s). \<forall>x\<in>set l. is_space x) \<longleftrightarrow> (\<forall>x\<in>set s. is_space x)"
proof (induction s)
  case Nil
  then show ?case by simp
next
  case (Cons x xs)
  obtain h t where ht: "split_on c xs = h # t"
    using split_on_not_Nil[of c xs] by (cases "split_on c xs") auto
  show ?case using Cons ht by auto
qed

lemma trim_descriptionText: "trim (descriptionText text) = descriptionText text"
  by (simp add: descriptionText_def Let_def)

lemma descriptions_empty_iff: "descriptions (analyze text) = [] \<longleftrightarrow> descriptionText text = []"
proof -
  have "descriptions (analyze text) = [] \<longleftrightarrow>
          (\<forall>l\<in>set (split_on 10 (descriptionText text)). trim l = [])"
    by (auto simp: analyze_def filter_empty_conv)
  also have "\<dots> \<longleftrightarrow> (\<forall>l\<in>set (split_on 10 (descriptionText text)). \<forall>x\<in>set l. is_space x)"
    by (simp add: trim_eq_Nil_iff)
  also have "\<dots> \<longleftrightarrow> (\<forall>x\<in>set (descriptionText text). is_space x)"
    by (rule split_on_blank) (simp add: is_space_def)
  also have "\<dots> \<longleftrightarrow> trim (descriptionText text) = []"
    by (simp add: trim_eq_Nil_iff)
  finally show ?thesis by (simp add: trim_descriptionText)
qed

lemma from_set_empty: "from_set xs = [] \<longleftrightarrow> xs = []"
  by (cases xs) auto

lemma match_all_empty: "match_all r s i = [] \<longleftrightarrow> exec_from r s i = None"
  by (subst match_all_unguarded) (auto split: option.splits)

lemma imageUrls_empty_iff:
  "imageUrls (analyze text) = [] \<longleftrightarrow> (\<forall>i\<le>length text. ends imageUrlRegex text (i, []) = [])"
  by (simp add: analyze_def from_set_empty js_match_g_def match_all_empty exec_from_None)

lemma analyze_malformed:
  "analyze (js ''-- ,'') = \<lparr>imageUrls = [], descriptions = [], parameters = []\<rparr>"
proof -
  have 1: "js_match_g imageUrlRegex (js ''-- ,'') = []"
    by (simp add: js_match_g_def imageUrlRegex_def js_def re_defs cls_defs loop_simps)
  have 2: "match_all paramRegex (js ''-- ,'') 0 = []"
    by (simp add: paramRegex_def js_def re_defs cls_defs loop_simps)
  have 3: "js_remove_g imageUrlRegex (js ''-- ,'') = js ''-- ,''"
    by (simp add: js_remove_g_def imageUrlRegex_def js_def re_defs cls_defs loop_simps)
  have 4: "js_replace flagTailRegex (js ''-- ,'') [] = []"
    by (simp add: js_replace_def flagTailRegex_def js_def re_defs cls_defs loop_simps matched_def)
  have 5: "js_remove_g mentionRegex [] = []"
    by (simp add: js_remove_g_def mentionRegex_def js_def re_defs loop_simps)
  have 6: "js_remove_g ratioRegex [] = []"
    by (simp add: js_remove_g_def ratioRegex_def js_def re_defs loop_simps)
  have 7: "js_remove_g numberRegex [] = []"
    by (simp add: js_remove_g_def numberRegex_def js_def re_defs cls_defs loop_simps)
  have 8: "js_remove_g parenRegex [] = []"
    by (simp add: js_remove_g_def parenRegex_def js_def re_defs loop_simps)
  have 9: "trim (js_replace trailingCommaRegex [] []) = []"
    by (simp add: js_replace_def trailingCommaRegex_def js_def re_defs loop_simps trim_def)
  have d: "descriptionText (js ''-- ,'') = []"
    by (simp only: descriptionText_def Let_def 3 4 5 6 7 8 9)
  show ?thesis
    unfolding analyze_def d 1 2 by (simp add: trim_def)
qed

text \<open>
  Claim C8. \<open>analyzePrompt\<close> and the alignment are compositions of total functions: the
  matcher and the loops over it terminate on every text (their termination is proved where
  they are defined) and no step of either has a failing branch, unlike \<open>add\<close> and
  \<open>update\<close>. \<open>analyzePrompt\<close> stores an analysis for every text, whatever the
  translation does. A collection is empty exactly when the text holds nothing for it: no
  image URL when the URL pattern matches at no index, no parameter when no flag starts
  anywhere, no description when the description text is empty; \<open>align\<close> returns one pair
  per piece of the original text, and none exactly when it is blank, whatever the translated
  text is. The empty text and the malformed text \<open>-- ,\<close> give three empty collections.
\<close>

theorem analyze_and_align_total:
  "analysis (analyzePrompt translate st text) = Some (analyze text)
   \<and> (imageUrls (analyze text) = [] \<longleftrightarrow>
        (\<forall>i\<le>length text. ends imageUrlRegex text (i, []) = []))
   \<and> (parameters (analyze text) = [] \<longleftrightarrow> (\<forall>i. \<not> flag_at text i))
   \<and> (descriptions (analyze text) = [] \<longleftrightarrow> descriptionText text = [])
   \<and> length (align text result) = length (sentence_pieces sentence_mark True text)
   \<and> (align text result = [] \<longleftrightarrow> trim text = [])
   \<and> analyze [] = \<lparr>imageUrls = [], descriptions = [], parameters = []\<rparr>
   \<and> analyze (js ''-- ,'') = \<lparr>imageUrls = [], descriptions = [], parameters = []\<rparr>
   \<and> align [] result = []"
proof (intro conjI)
  show "analysis (analyzePrompt translate st text) = Some (analyze text)"
    by (simp add: analyzePrompt_def handleTranslate_def Let_def split: sum.splits)
  show "imageUrls (analyze text) = [] \<longleftrightarrow>
        (\<forall>i\<le>length text. ends imageUrlRegex text (i, []) = [])"
    by (rule imageUrls_empty_iff)
  show "parameters (analyze text) = [] \<longleftrightarrow> (\<forall>i. \<not> flag_at text i)"
    by (rule no_flag_iff)
  show "descriptions (analyze text) = [] \<longleftrightarrow> descriptionText text = []"
    by (rule descriptions_empty_iff)
  show "length (align text result) = length (sentence_pieces sentence_mark True text)"
    by (simp add: align_length originalParts_pieces)
  show "align text result = [] \<longleftrightarrow> trim text = []"
    by (rule align_empty_iff)
qed (rule analyze_empty analyze_malformed align_empty)+

theorem analyze_and_align_total_witness:
  "imageUrls (analyze (js ''-- ,'')) = []
   \<and> 2 \<le> length (js ''-- ,'')
   \<and> ends imageUrlRegex (js ''-- ,'') (2, []) = []
   \<and> \<not> flag_at (js ''-- ,'') 0
   \<and> align (js '' '') (js ''x'') = []"
proof -
  note a = analyze_and_align_total [of _ _ "js ''-- ,''" "[]"]
  note b = analyze_and_align_total [of _ _ "js '' ''" "js ''x''"]
  have m: "analyze (js ''-- ,'') = \<lparr>imageUrls = [], descriptions = [], parameters = []\<rparr>"
    using a by blast
  have l: "2 \<le> length (js ''-- ,'')" by (simp add: js_def)
  have 1: "\<forall>i\<le>length (js ''-- ,''). ends imageUrlRegex (js ''-- ,'') (i, []) = []"
    using a unfolding m by simp
  have 2: "\<forall>i. \<not> flag_at (js ''-- ,'') i"
    using a unfolding m by simp
  have t: "trim (js '' '') = []" by (simp add: js_def trim_def is_space_def)
  have 3: "align (js '' '') (js ''x'') = []"
    using b t by blast
  show ?thesis using 1 2 3 l by (simp add: m)
qed

section \<open>Translation failures\<close>

text \<open>
  Claim C9. When the awaited translation rejects with an \<open>Error\<close>, \<open>handleTranslate\<close>
  surfaces the insufficient-balance message if the error's message contains the code
  \<open>54004\<close> and the error's own message otherwise. The failure path writes the three
  translation fields (\<open>translatedText\<close>, \<open>translationError\<close>, \<open>isTranslating\<close>) and
  nothing else: the analysis, the prompt and the previous mappings stay as they were, and
  \<open>analyzePrompt\<close> still stores the analysis of the text.
\<close>

theorem translation_failure_keeps_analysis:
  assumes "text \<noteq> []" and "translate text = Inl (Error message)"
  shows "handleTranslate translate st text =
           st\<lparr>isTranslating := False,
               translationError :=
                 Some (if js_includes message (js ''54004'') then msg_insufficient_balance
                       else message),
               translatedText := msg_failed\<rparr>
         \<and> analysis (handleTranslate translate st text) = analysis st
         \<and> textMappings (handleTranslate translate st text) = textMappings st
         \<and> prompt (handleTranslate translate st text) = prompt st
         \<and> analysis (analyzePrompt translate st text) = Some (analyze text)"
  using assms
  by (auto simp: handleTranslate_def errorMessage_def analyzePrompt_def Let_def
           split: sum.splits thrown.splits)


theorem translation_failure_keeps_analysis_witness:
  "js ''cat'' \<noteq> []
   \<and> translationError
         (handleTranslate (\<lambda>t. Inl (Error (js ''54004: low balance'')))
            \<lparr>prompt = js ''cat'', analysis = Some (analyze (js ''cat'')), editingParam = None,
              paramValue = [], translationError = None, translatedText = [],
              isTranslating = False, textMappings = []\<rparr>
            (js ''cat'')) = Some msg_insufficient_balance
   \<and> analysis
         (handleTranslate (\<lambda>t. Inl (Error (js ''54004: low balance'')))
            \<lparr>prompt = js ''cat'', analysis = Some (analyze (js ''cat'')), editingParam = None,
              paramValue = [], translationError = None, translatedText = [],
              isTranslating = False, textMappings = []\<rparr>
            (js ''cat'')) = Some (analyze (js ''cat''))"
  using translation_failure_keeps_analysis
          [of "js ''cat''" "\<lambda>t. Inl (Error (js ''54004: low balance''))"
              "js ''54004: low balance''"
              "\<lparr>prompt = js ''cat'', analysis = Some (analyze (js ''cat'')), editingParam = None,
                paramValue = [], translationError = None, translatedText = [],
                isTranslating = False, textMappings = []\<rparr>"]
  by (simp add: js_def)

end
